theory Spec2Isabelle
  imports Main "HOL-Library.Word"
begin

unbundle bit_operations_syntax

section \<open>Protocol identification: the keyword dictionary of proto_identify.c\<close>

text \<open>
  The C file keeps three pieces of module state: the keyword table
  (\<open>keywords\<close>, \<open>num_keywords\<close>), the root pointer of the dictionary tree
  (\<open>kd_root\<close>) and the heap on which \<open>calloc\<close> places the tree nodes.  The
  model passes all three explicitly.  Pointers are \<open>addr option\<close> with \<open>None\<close>
  for \<open>NULL\<close>; the heap maps an address to the node stored there, and to
  \<open>None\<close> when the address was never allocated or has been freed.  Every
  undefined behaviour of the C code (dereferencing \<open>NULL\<close>, touching freed
  memory, writing past an array) is a \<open>fault\<close> value of the model.
\<close>

subsection \<open>Data\<close>

type_synonym addr = nat

datatype fault = NullDeref | InvalidAccess | OutOfBounds | OutOfFuel

text \<open>\<open>struct pi_container\<close>.\<close>

record pi_container =
  dir :: "8 word"
  app :: "16 word"

definition DIR_UNKNOWN :: "8 word" where "DIR_UNKNOWN = 0"
definition DIR_CLIENT :: "8 word" where "DIR_CLIENT = 1"
definition DIR_SERVER :: "8 word" where "DIR_SERVER = 2"

definition MAX_VAL_LEN :: nat where "MAX_VAL_LEN = 32"
definition MAX_VAL_BYTES :: "32 word" where "MAX_VAL_BYTES = 64"
definition MAX_KEYWORDS :: nat where "MAX_KEYWORDS = 256"
definition WILDCARD :: "16 word" where "WILDCARD = 0x100"
definition MAX_CHILDREN :: nat where "MAX_CHILDREN = 257"

text \<open>
  \<open>struct keyword_container\<close>; the C fields \<open>value\<close>, \<open>value_len\<close> and \<open>pi\<close>
  carry the prefix \<open>kc_\<close> here.
\<close>

record keyword_container =
  kc_value :: "16 word list"
  kc_value_len :: "32 word"
  kc_pi :: pi_container

text \<open>\<open>struct keyword_dict_node\<close>.\<close>

record keyword_dict_node =
  edge :: "16 word list"
  child :: "addr option"
  sibling :: "addr option"
  num_children :: "16 word"
  pi :: pi_container

text \<open>
  The heap of tree nodes.  \<open>brk\<close> is the next address \<open>calloc\<close> hands out;
  addresses are never reused (the program never allocates after a \<open>free\<close>),
  and \<open>calloc\<close> is taken to succeed.
\<close>

record memory =
  cells :: "addr \<Rightarrow> keyword_dict_node option"
  brk :: addr

text \<open>The module's static variables together with the heap.\<close>

record pstate =
  keyword_list :: "keyword_container list"
  num_keywords :: "32 word"
  kd_root :: "addr option"
  mem :: memory

definition zero_pi :: pi_container where
  "zero_pi = \<lparr>dir = 0, app = 0\<rparr>"

definition zero_kc :: keyword_container where
  "zero_kc = \<lparr>kc_value = replicate MAX_VAL_LEN 0, kc_value_len = 0, kc_pi = zero_pi\<rparr>"

definition zero_node :: keyword_dict_node where
  "zero_node = \<lparr>edge = replicate MAX_CHILDREN 0, child = None, sibling = None,
                 num_children = 0, pi = zero_pi\<rparr>"

text \<open>The state at program start: zero-initialised statics, nothing allocated.\<close>

definition initial_state :: pstate where
  "initial_state = \<lparr>keyword_list = replicate MAX_KEYWORDS zero_kc, num_keywords = 0,
                     kd_root = None, mem = \<lparr>cells = (\<lambda>_. None), brk = 0\<rparr>\<rparr>"

subsection \<open>The keyword list\<close>

datatype add_result = AddOk | NoMoreSlots | ValueTooLong

text \<open>Both failures of \<open>add_keyword\<close> return 1; they differ in the logged message.\<close>

fun ret_code :: "add_result \<Rightarrow> int" where
  "ret_code AddOk = 0"
| "ret_code NoMoreSlots = 1"
| "ret_code ValueTooLong = 1"

text \<open>
  \<open>memcpy(kc->value, value, value_bytes_len)\<close> on arrays of \<open>uint16_t\<close>: the
  first \<open>value_bytes_len / 2\<close> symbols of the destination are replaced.  When
  \<open>value_bytes_len\<close> is odd, one more byte is copied; with the low byte of a
  \<open>uint16_t\<close> stored first (the byte order of the machines the program is
  built for) this is the low byte of the next symbol, and the high byte of
  that slot of the destination stays as it was.  The source holds the symbols
  the copy reads.  (The callers pass \<open>sizeof\<close> of a \<open>uint16_t\<close> array, which is
  even; the slot an odd count touches is the one at index \<open>value_len\<close>, which
  no code reads.)
\<close>

definition memcpy_u16 :: "16 word list \<Rightarrow> 16 word list \<Rightarrow> nat \<Rightarrow> 16 word list" where
  "memcpy_u16 dst src nbytes =
     (let k = nbytes div 2 in
      if even nbytes then take k src @ drop k dst
      else take k src @ [(dst ! k AND 0xFF00) OR (src ! k AND 0x00FF)] @ drop (Suc k) dst)"

definition add_keyword ::
    "16 word list \<Rightarrow> 32 word \<Rightarrow> pi_container \<Rightarrow> pstate \<Rightarrow> add_result \<times> pstate" where
  "add_keyword v value_bytes_len p st =
     (if unat (num_keywords st) \<ge> MAX_KEYWORDS then (NoMoreSlots, st)
      else if value_bytes_len > MAX_VAL_BYTES then (ValueTooLong, st)
      else
        let i = unat (num_keywords st);
            kc = keyword_list st ! i;
            kc' = kc\<lparr>kc_value := memcpy_u16 (kc_value kc) v (unat value_bytes_len),
                     kc_value_len := value_bytes_len div 2,
                     kc_pi := p\<rparr>
        in (AddOk, st\<lparr>keyword_list := (keyword_list st)[i := kc'],
                       num_keywords := num_keywords st + 1\<rparr>))"

text \<open>\<open>sizeof(string)\<close> for a \<open>uint16_t string[]\<close>.\<close>

definition sizeof_u16 :: "16 word list \<Rightarrow> 32 word" where
  "sizeof_u16 v = 2 * of_nat (length v)"

definition tls_client_string :: "16 word list" where
  "tls_client_string = [0x16, 0x03, 0x01, WILDCARD, WILDCARD, 0x01]"

definition tls_server_string :: "16 word list" where
  "tls_server_string = [0x16, 0x03, 0x01, WILDCARD, WILDCARD, 0x02]"

definition add_tls_identifiers :: "pstate \<Rightarrow> int \<times> pstate" where
  "add_tls_identifiers st =
     (case add_keyword tls_client_string (sizeof_u16 tls_client_string)
             \<lparr>dir = DIR_CLIENT, app = 443\<rparr> st of
        (r1, st1) \<Rightarrow>
          if ret_code r1 \<noteq> 0 then (1, st1)
          else (case add_keyword tls_server_string (sizeof_u16 tls_server_string)
                       \<lparr>dir = DIR_SERVER, app = 443\<rparr> st1 of
                  (r2, st2) \<Rightarrow> if ret_code r2 \<noteq> 0 then (1, st2) else (0, st2)))"

definition populate_keyword_identifiers :: "pstate \<Rightarrow> int \<times> pstate" where
  "populate_keyword_identifiers st =
     (case add_tls_identifiers st of (r, st') \<Rightarrow> if r \<noteq> 0 then (1, st') else (0, st'))"

definition init_keywords :: "pstate \<Rightarrow> int \<times> pstate" where
  "init_keywords st =
     (case populate_keyword_identifiers (st\<lparr>keyword_list := replicate MAX_KEYWORDS zero_kc\<rparr>) of
        (r, st') \<Rightarrow> if r \<noteq> 0 then (1, st') else (0, st'))"

subsection \<open>Tree nodes on the heap\<close>

definition alloc_kdn :: "memory \<Rightarrow> addr \<times> memory" where
  "alloc_kdn m = (brk m, m\<lparr>cells := (cells m)(brk m \<mapsto> zero_node), brk := Suc (brk m)\<rparr>)"

text \<open>Write through a pointer that has been checked to be live.\<close>

definition upd_node :: "memory \<Rightarrow> addr \<Rightarrow> (keyword_dict_node \<Rightarrow> keyword_dict_node) \<Rightarrow> memory" where
  "upd_node m a f = m\<lparr>cells := (cells m)(a := map_option f (cells m a))\<rparr>"

definition free_node :: "memory \<Rightarrow> addr \<Rightarrow> fault + memory" where
  "free_node m a =
     (case cells m a of None \<Rightarrow> Inl InvalidAccess
      | Some _ \<Rightarrow> Inr (m\<lparr>cells := (cells m)(a := None)\<rparr>))"

text \<open>
  \<open>destroy_kdn\<close> recurses along the pointers it finds; the model gives it fuel,
  one unit per call and per loop iteration.
\<close>

fun destroy_kdn :: "nat \<Rightarrow> memory \<Rightarrow> addr option \<Rightarrow> fault + memory"
  and destroy_children :: "nat \<Rightarrow> memory \<Rightarrow> addr option \<Rightarrow> fault + memory" where
  "destroy_kdn 0 m node = Inl OutOfFuel"
| "destroy_kdn (Suc k) m None = Inr m"
| "destroy_kdn (Suc k) m (Some a) =
     (case cells m a of None \<Rightarrow> Inl InvalidAccess
      | Some n \<Rightarrow>
          if child n = None \<or> num_children n = 0 then free_node m a
          else (case destroy_children k m (child n) of
                  Inl e \<Rightarrow> Inl e
                | Inr m' \<Rightarrow> free_node m' a))"
| "destroy_children 0 m c = Inl OutOfFuel"
| "destroy_children (Suc k) m None = Inr m"
| "destroy_children (Suc k) m (Some c) =
     (case cells m c of None \<Rightarrow> Inl InvalidAccess
      | Some cn \<Rightarrow>
          (case destroy_kdn k m (Some c) of
             Inl e \<Rightarrow> Inl e
           | Inr m' \<Rightarrow> destroy_children k m' (sibling cn)))"

definition kdn_create_child ::
    "memory \<Rightarrow> addr option \<Rightarrow> 16 word \<Rightarrow> fault + (addr option \<times> memory)" where
  "kdn_create_child m parent e =
     (case parent of None \<Rightarrow> Inr (None, m)
      | Some p \<Rightarrow>
          (case cells m p of None \<Rightarrow> Inl InvalidAccess
           | Some pn \<Rightarrow>
               if child pn \<noteq> None \<or> num_children pn \<noteq> 0 then Inr (None, m)
               else
                 (case alloc_kdn m of
                    (c, m1) \<Rightarrow>
                      Inr (Some c,
                           upd_node m1 p (\<lambda>n. n\<lparr>child := Some c,
                                                  edge := (edge n)[unat (num_children n) := e],
                                                  num_children := num_children n + 1\<rparr>)))))"

definition kdn_create_sibling ::
    "memory \<Rightarrow> addr option \<Rightarrow> addr option \<Rightarrow> 16 word \<Rightarrow> fault + (addr option \<times> memory)" where
  "kdn_create_sibling m parent chld e =
     (case parent of None \<Rightarrow> Inr (None, m)
      | Some p \<Rightarrow>
     (case chld of None \<Rightarrow> Inr (None, m)
      | Some c \<Rightarrow>
     (case cells m c of None \<Rightarrow> Inl InvalidAccess
      | Some cn \<Rightarrow>
     (case cells m p of None \<Rightarrow> Inl InvalidAccess
      | Some pn \<Rightarrow>
          if unat (num_children pn) = MAX_CHILDREN - 1 then Inr (None, m)
          else
            (case alloc_kdn m of
               (s, m1) \<Rightarrow>
                 (let m2 = upd_node m1 c (\<lambda>n. n\<lparr>sibling := Some s\<rparr>) in
                  (case cells m2 p of None \<Rightarrow> Inl InvalidAccess
                   | Some pn2 \<Rightarrow>
                       if \<not> unat (num_children pn2) < MAX_CHILDREN then Inl OutOfBounds
                       else
                         Inr (Some s,
                              upd_node m2 p
                                (\<lambda>n. n\<lparr>edge := (edge n)[unat (num_children n) := e],
                                       num_children := num_children n + 1\<rparr>)))))))))"

text \<open>
  The inner loop of \<open>keyword_dict_add_keyword\<close>: \<open>k\<close> runs over the first
  \<open>num_children\<close> entries of the edge array while \<open>child\<close> steps along the
  sibling list as long as there is a next sibling.  The result is the pair
  \<open>(match, child)\<close> the loop leaves behind.  The caller passes the edges in
  use, \<open>take num_children edge\<close>; the guard of \<open>kdn_create_sibling\<close> keeps
  \<open>num_children\<close> below the array size, so these reads are inside the array
  (part of the representation invariant \<open>trep\<close> below).
\<close>

fun scan_children ::
    "memory \<Rightarrow> 16 word \<Rightarrow> 16 word list \<Rightarrow> addr \<Rightarrow> fault + (bool \<times> addr)" where
  "scan_children m v [] c = Inr (False, c)"
| "scan_children m v (e # es) c =
     (if v = e then Inr (True, c)
      else (case cells m c of None \<Rightarrow> Inl InvalidAccess
            | Some cn \<Rightarrow>
                scan_children m v es (case sibling cn of None \<Rightarrow> c | Some s \<Rightarrow> s)))"

text \<open>
  The outer loop over the symbols of the keyword, with the node pointer the
  loop carries, followed by the final store \<open>node->pi = kc->pi\<close>.
\<close>

fun add_symbols ::
    "memory \<Rightarrow> addr option \<Rightarrow> 16 word list \<Rightarrow> pi_container \<Rightarrow> fault + memory" where
  "add_symbols m node [] q =
     (case node of None \<Rightarrow> Inl NullDeref
      | Some a \<Rightarrow>
          (case cells m a of None \<Rightarrow> Inl InvalidAccess
           | Some n \<Rightarrow> Inr (upd_node m a (\<lambda>n. n\<lparr>pi := q\<rparr>))))"
| "add_symbols m node (v # vs) q =
     (case node of None \<Rightarrow> Inl NullDeref
      | Some a \<Rightarrow>
          (case cells m a of None \<Rightarrow> Inl InvalidAccess
           | Some n \<Rightarrow>
               (case child n of
                  Some c \<Rightarrow>
                    (case scan_children m v (take (unat (num_children n)) (edge n)) c of
                       Inl e \<Rightarrow> Inl e
                     | Inr (match, ch) \<Rightarrow>
                         if match then add_symbols m (Some ch) vs q
                         else (case kdn_create_sibling m (Some a) (Some ch) v of
                                 Inl e \<Rightarrow> Inl e
                               | Inr (node', m') \<Rightarrow> add_symbols m' node' vs q))
                | None \<Rightarrow>
                    (case kdn_create_child m (Some a) v of
                       Inl e \<Rightarrow> Inl e
                     | Inr (node', m') \<Rightarrow> add_symbols m' node' vs q))))"

text \<open>\<open>keyword_dict_add_keyword\<close> always returns 0; the model returns the heap.\<close>

definition keyword_dict_add_keyword ::
    "memory \<Rightarrow> addr option \<Rightarrow> keyword_container \<Rightarrow> fault + memory" where
  "keyword_dict_add_keyword m root kc =
     (case root of None \<Rightarrow> Inr m
      | Some r \<Rightarrow> add_symbols m root (take (unat (kc_value_len kc)) (kc_value kc)) (kc_pi kc))"

text \<open>The loop of \<open>construct_keyword_dict\<close> over \<open>keywords[0 .. num_keywords)\<close>.\<close>

fun add_all_keywords ::
    "memory \<Rightarrow> addr option \<Rightarrow> keyword_container list \<Rightarrow> fault + memory" where
  "add_all_keywords m root [] = Inr m"
| "add_all_keywords m root (kc # kcs) =
     (case keyword_dict_add_keyword m root kc of
        Inl e \<Rightarrow> Inl e
      | Inr m' \<Rightarrow> add_all_keywords m' root kcs)"

text \<open>
  \<open>construct_keyword_dict(&kd_root)\<close>: the handle is the module's \<open>kd_root\<close>.
\<close>

definition construct_keyword_dict :: "pstate \<Rightarrow> fault + (int \<times> pstate)" where
  "construct_keyword_dict st =
     (if kd_root st \<noteq> None then Inr (1, st)
      else
        (case alloc_kdn (mem st) of
           (r, m1) \<Rightarrow>
             (case add_all_keywords m1 (Some r)
                     (take (unat (num_keywords st)) (keyword_list st)) of
                Inl e \<Rightarrow> Inl e
              | Inr m2 \<Rightarrow> Inr (0, st\<lparr>kd_root := Some r, mem := m2\<rparr>))))"

subsection \<open>Searching\<close>

text \<open>
  The test \<open>(node->edge[i] == WILDCARD) || (*data == node->edge[i])\<close>.  The data
  pointer is a \<open>const char *\<close>; \<open>char\<close> is signed on the platforms the program
  is built for, so the byte is sign-extended to \<open>int\<close> while the
  \<open>uint16_t\<close> edge is zero-extended.
\<close>

definition edge_matches :: "16 word \<Rightarrow> 8 word \<Rightarrow> bool" where
  "edge_matches e d \<longleftrightarrow> e = WILDCARD \<or> sint d = uint e"

text \<open>
  The loop of \<open>search_keyword_dict\<close> up to its first matching edge: the result
  is the \<open>child\<close> pointer the loop holds when edge \<open>i\<close> matches, \<open>None\<close> when
  the loop runs out of edges.
\<close>

fun first_match ::
    "memory \<Rightarrow> 8 word \<Rightarrow> 16 word list \<Rightarrow> addr option \<Rightarrow> fault + addr option" where
  "first_match m d [] c = Inr None"
| "first_match m d (e # es) c =
     (case c of None \<Rightarrow> Inl NullDeref
      | Some ca \<Rightarrow>
          (case cells m ca of None \<Rightarrow> Inl InvalidAccess
           | Some cn \<Rightarrow>
               if edge_matches e d then Inr (Some ca)
               else first_match m d es (sibling cn)))"

text \<open>
  \<open>search_keyword_dict\<close>.  The buffer \<open>(data, data_len)\<close> is the byte list; the
  result is the address of the node whose \<open>pi\<close> the C function points to.
\<close>

fun search_keyword_dict ::
    "memory \<Rightarrow> addr option \<Rightarrow> 8 word list \<Rightarrow> fault + addr option" where
  "search_keyword_dict m root [] = Inr None"
| "search_keyword_dict m None (d # ds) = Inr None"
| "search_keyword_dict m (Some r) (d # ds) =
     (case cells m r of None \<Rightarrow> Inl InvalidAccess
      | Some n \<Rightarrow>
          (case first_match m d (take (unat (num_children n)) (edge n)) (child n) of
             Inl e \<Rightarrow> Inl e
           | Inr None \<Rightarrow> Inr None
           | Inr (Some c) \<Rightarrow>
               (case cells m c of None \<Rightarrow> Inl InvalidAccess
                | Some cn \<Rightarrow>
                    if app (pi cn) \<noteq> 0 then Inr (Some c)
                    else if ds = [] then Inr None
                    else search_keyword_dict m (Some c) ds)))"

subsection \<open>The exported operations\<close>

definition proto_identify_init_keyword_dict :: "pstate \<Rightarrow> fault + (int \<times> pstate)" where
  "proto_identify_init_keyword_dict st =
     (if kd_root st \<noteq> None then Inr (1, st)
      else
        (case (if num_keywords st = 0 then init_keywords st else (0, st)) of
           (r, st1) \<Rightarrow>
             if r \<noteq> 0 then Inr (1, st1)
             else (case construct_keyword_dict st1 of
                     Inl e \<Rightarrow> Inl e
                   | Inr (_, st2) \<Rightarrow> Inr (0, st2))))"

text \<open>
  \<open>proto_identify_destroy_keyword_dict\<close>.  The function leaves \<open>kd_root\<close> as it
  is.
\<close>

definition proto_identify_destroy_keyword_dict :: "nat \<Rightarrow> pstate \<Rightarrow> fault + pstate" where
  "proto_identify_destroy_keyword_dict fuel st =
     (if kd_root st = None then Inr st
      else (case destroy_kdn fuel (mem st) (kd_root st) of
              Inl e \<Rightarrow> Inl e
            | Inr m' \<Rightarrow> Inr (st\<lparr>mem := m'\<rparr>)))"

definition identify_tcp_protocol :: "pstate \<Rightarrow> 8 word list \<Rightarrow> fault + (16 word \<times> pstate)" where
  "identify_tcp_protocol st tcp_data =
     (if length tcp_data = 0 then Inr (0, st)
      else
        (case (if kd_root st = None
               then (case proto_identify_init_keyword_dict st of
                       Inl e \<Rightarrow> Inl e | Inr (_, st') \<Rightarrow> Inr st')
               else Inr st) of
           Inl e \<Rightarrow> Inl e
         | Inr st1 \<Rightarrow>
             (case search_keyword_dict (mem st1) (kd_root st1) tcp_data of
                Inl e \<Rightarrow> Inl e
              | Inr None \<Rightarrow> Inr (0, st1)
              | Inr (Some a) \<Rightarrow>
                  (case cells (mem st1) a of None \<Rightarrow> Inl InvalidAccess
                   | Some n \<Rightarrow> Inr (app (pi n), st1)))))"

subsection \<open>Observations used in the statements\<close>

text \<open>The protocol id a call of \<open>identify_tcp_protocol\<close> returns, if it returns.\<close>

definition port_of :: "fault + (16 word \<times> pstate) \<Rightarrow> 16 word option" where
  "port_of r = (case r of Inl _ \<Rightarrow> None | Inr (p, _) \<Rightarrow> Some p)"

definition fault_of :: "fault + 'a \<Rightarrow> fault option" where
  "fault_of r = (case r of Inl e \<Rightarrow> Some e | Inr _ \<Rightarrow> None)"

text \<open>
  The inference \<open>search_keyword_dict\<close> answers with: the \<open>pi\<close> of the node whose
  address it returns (\<open>identify_tcp_protocol\<close> reads \<open>app\<close> from it).  \<open>None\<close> when
  the search returns \<open>NULL\<close> or does not return.
\<close>

definition inference_of :: "pstate \<Rightarrow> 8 word list \<Rightarrow> pi_container option" where
  "inference_of st data =
     (case search_keyword_dict (mem st) (kd_root st) data of
        Inr (Some a) \<Rightarrow> map_option pi (cells (mem st) a)
      | _ \<Rightarrow> None)"


text \<open>
  The signature table as the tree builder reads it: the first \<open>num_keywords\<close>
  containers, each cut to its \<open>value_len\<close> symbols and paired with its
  inference.  (\<open>add_keyword\<close> stores no \<open>value_len\<close> above \<open>MAX_VAL_LEN\<close>,
  so the builder's reads \<open>value[i]\<close>, \<open>i < value_len\<close>, stay inside the array.)
\<close>

definition sig_of :: "keyword_container \<Rightarrow> 16 word list \<times> pi_container" where
  "sig_of kc = (take (unat (kc_value_len kc)) (kc_value kc), kc_pi kc)"

definition table_of :: "pstate \<Rightarrow> (16 word list \<times> pi_container) list" where
  "table_of st = map sig_of (take (unat (num_keywords st)) (keyword_list st))"

text \<open>
  A signature matches a buffer when the buffer is at least as long and every
  symbol passes the matcher's edge test against the byte at its position.
\<close>

definition sig_matches :: "16 word list \<Rightarrow> 8 word list \<Rightarrow> bool" where
  "sig_matches s bytes \<longleftrightarrow>
     length s \<le> length bytes \<and> list_all2 edge_matches s (take (length s) bytes)"

text \<open>Length of the longest common prefix of two symbol sequences.\<close>

fun lcp :: "'a list \<Rightarrow> 'a list \<Rightarrow> nat" where
  "lcp (x # xs) (y # ys) = (if x = y then Suc (lcp xs ys) else 0)"
| "lcp xs ys = 0"

text \<open>
  The node a symbol sequence leads to: from \<open>node\<close>, follow for each symbol
  the edge holding exactly that symbol, found the way \<open>keyword_dict_add_keyword\<close>
  finds it (the scan of \<open>scan_children\<close>).  \<open>None\<close> when some symbol has no
  edge.  For a signature of the table this is the node that carries its
  inference.
\<close>

fun path_end :: "memory \<Rightarrow> addr option \<Rightarrow> 16 word list \<Rightarrow> addr option" where
  "path_end m node [] = node"
| "path_end m None (v # vs) = None"
| "path_end m (Some a) (v # vs) =
     (case cells m a of None \<Rightarrow> None
      | Some n \<Rightarrow>
          (case child n of None \<Rightarrow> None
           | Some c \<Rightarrow>
               (case scan_children m v (take (unat (num_children n)) (edge n)) c of
                  Inr (True, ch) \<Rightarrow> path_end m (Some ch) vs
                | _ \<Rightarrow> None)))"

subsection \<open>States and inputs named in the statements\<close>

text \<open>The state after the first \<open>proto_identify_init_keyword_dict()\<close> of a run.\<close>

definition after_init :: pstate where
  "after_init = (case proto_identify_init_keyword_dict initial_state of
                   Inr (_, st) \<Rightarrow> st | Inl _ \<Rightarrow> initial_state)"

text \<open>That state after one \<open>proto_identify_destroy_keyword_dict()\<close>.\<close>

definition after_teardown :: pstate where
  "after_teardown = (case proto_identify_destroy_keyword_dict 100 after_init of
                       Inr st \<Rightarrow> st | Inl _ \<Rightarrow> after_init)"

text \<open>
  The reference catalog, the state \<open>init_keywords\<close> leaves (catalog loaded,
  tree not yet built), and a state holding the client signature alone.
\<close>

definition tls_table :: "(16 word list \<times> pi_container) list" where
  "tls_table = [(tls_client_string, \<lparr>dir = DIR_CLIENT, app = 443\<rparr>),
                (tls_server_string, \<lparr>dir = DIR_SERVER, app = 443\<rparr>)]"

definition tls_loaded :: pstate where
  "tls_loaded = snd (init_keywords initial_state)"

definition client_only :: pstate where
  "client_only = snd (add_keyword tls_client_string (sizeof_u16 tls_client_string)
                        \<lparr>dir = DIR_CLIENT, app = 443\<rparr> initial_state)"

text \<open>
  A table with the client signature and a second signature that starts with
  the literal \<open>0x80\<close>.
\<close>

definition mixed_state :: pstate where
  "mixed_state =
     snd (add_keyword [0x80, 0x01] (sizeof_u16 [0x80, 0x01]) \<lparr>dir = DIR_CLIENT, app = 80\<rparr>
            client_only)"

text \<open>
  One-symbol signatures, the 256 byte values as symbols, and a heap holding
  only a freshly allocated root (as \<open>construct_keyword_dict\<close> starts with).
\<close>

definition one_symbol_kc :: "16 word \<Rightarrow> keyword_container" where
  "one_symbol_kc v = \<lparr>kc_value = v # replicate 31 0, kc_value_len = 1,
                       kc_pi = \<lparr>dir = DIR_CLIENT, app = 80\<rparr>\<rparr>"

definition all_bytes :: "16 word list" where
  "all_bytes = map of_nat [0..<256]"

definition fresh_root :: memory where
  "fresh_root = snd (alloc_kdn (mem initial_state))"




section \<open>The tree a heap represents\<close>

text \<open>
  To reason about the pointer structure, a heap is related to an algebraic
  tree that records, for every node, its address, its inference and the list
  of its edges with the subtree behind each edge.  A forest is the sibling
  list below one node, in sibling order, which is also the order of the
  parent's edge array.
\<close>

datatype atree = ANode addr forest pi_container
  and forest = FNil | FCons "16 word" atree forest

fun root_addr :: "atree \<Rightarrow> addr" where
  "root_addr (ANode a f p) = a"

fun subforest :: "atree \<Rightarrow> forest" where
  "subforest (ANode a f p) = f"

fun node_pi :: "atree \<Rightarrow> pi_container" where
  "node_pi (ANode a f p) = p"

primrec f_edges :: "forest \<Rightarrow> 16 word list" where
  "f_edges FNil = []"
| "f_edges (FCons e t f) = e # f_edges f"

primrec first_addr :: "forest \<Rightarrow> addr option" where
  "first_addr FNil = None"
| "first_addr (FCons e t f) = Some (root_addr t)"

primrec last_root :: "atree \<Rightarrow> forest \<Rightarrow> addr" where
  "last_root t FNil = root_addr t"
| "last_root t (FCons e t' f) = last_root t' f"

text \<open>The addresses a tree occupies, and the trees whose addresses are all different.\<close>

primrec taddrs :: "atree \<Rightarrow> addr set" and faddrs :: "forest \<Rightarrow> addr set" where
  "taddrs (ANode a f p) = insert a (faddrs f)"
| "faddrs FNil = {}"
| "faddrs (FCons e t f) = taddrs t \<union> faddrs f"

primrec tdist :: "atree \<Rightarrow> bool" and fdist :: "forest \<Rightarrow> bool" where
  "tdist (ANode a f p) = (a \<notin> faddrs f \<and> fdist f)"
| "fdist FNil = True"
| "fdist (FCons e t f) = (tdist t \<and> fdist f \<and> taddrs t \<inter> faddrs f = {})"

text \<open>
  \<open>trep m t sib\<close>: the heap \<open>m\<close> holds the tree \<open>t\<close>, and the \<open>sibling\<close>
  field of its root is \<open>sib\<close>.  The node at the root's address has the
  tree's inference, \<open>child\<close> points to the first subtree, \<open>num_children\<close>
  counts the edges, the edge array (of \<open>MAX_CHILDREN\<close> slots) starts with
  the edge symbols, and every subtree is held with its \<open>sibling\<close> pointing to
  the next one.
\<close>

primrec trep :: "memory \<Rightarrow> atree \<Rightarrow> addr option \<Rightarrow> bool"
  and frep :: "memory \<Rightarrow> forest \<Rightarrow> bool" where
  "trep m (ANode a f p) sib =
     (case cells m a of None \<Rightarrow> False
      | Some n \<Rightarrow>
          sibling n = sib \<and> pi n = p \<and> child n = first_addr f
          \<and> unat (num_children n) = length (f_edges f)
          \<and> length (f_edges f) < MAX_CHILDREN
          \<and> length (edge n) = MAX_CHILDREN
          \<and> take (length (f_edges f)) (edge n) = f_edges f
          \<and> frep m f)"
| "frep m FNil = True"
| "frep m (FCons e t f) = (trep m t (first_addr f) \<and> frep m f)"

definition same_on :: "addr set \<Rightarrow> memory \<Rightarrow> memory \<Rightarrow> bool" where
  "same_on A m m' \<longleftrightarrow> (\<forall>x\<in>A. cells m' x = cells m x)"

definition tree_inv :: "memory \<Rightarrow> atree \<Rightarrow> bool" where
  "tree_inv m t \<longleftrightarrow> trep m t None \<and> tdist t \<and> taddrs t \<subseteq> {..<brk m}"

text \<open>Edges of a forest: lookup by symbol, replacement, and appending at the end.\<close>

primrec fget :: "forest \<Rightarrow> 16 word \<Rightarrow> atree option" where
  "fget FNil v = None"
| "fget (FCons e t f) v = (if v = e then Some t else fget f v)"

primrec fsib :: "forest \<Rightarrow> 16 word \<Rightarrow> addr option" where
  "fsib FNil v = None"
| "fsib (FCons e t f) v = (if v = e then first_addr f else fsib f v)"

primrec fupd :: "forest \<Rightarrow> 16 word \<Rightarrow> atree \<Rightarrow> forest" where
  "fupd FNil v t' = FNil"
| "fupd (FCons e t f) v t' = (if v = e then FCons e t' f else FCons e t (fupd f v t'))"

primrec fsnoc :: "forest \<Rightarrow> 16 word \<Rightarrow> atree \<Rightarrow> forest" where
  "fsnoc FNil v t' = FCons v t' FNil"
| "fsnoc (FCons e t f) v t' = FCons e t (fsnoc f v t')"

text \<open>
  Forests put one after the other, and the forest of leaves that one-symbol
  signatures produce: one leaf per symbol, at consecutive addresses.
\<close>

primrec fappend :: "forest \<Rightarrow> forest \<Rightarrow> forest" where
  "fappend FNil g = g"
| "fappend (FCons e t f) g = FCons e t (fappend f g)"

primrec leaves :: "addr \<Rightarrow> 16 word list \<Rightarrow> pi_container \<Rightarrow> forest" where
  "leaves b [] q = FNil"
| "leaves b (v # vs) q = FCons v (ANode b FNil q) (leaves (Suc b) vs q)"

text \<open>
  What inserting a keyword does to the tree: \<open>b\<close> is the next free address,
  the result is the new tree and the next free address after it, and \<open>None\<close>
  when a node that already has \<open>MAX_CHILDREN - 1\<close> edges needs one more.
\<close>

fun ains :: "atree \<Rightarrow> 16 word list \<Rightarrow> pi_container \<Rightarrow> addr \<Rightarrow> (atree \<times> addr) option" where
  "ains t [] q b = Some (ANode (root_addr t) (subforest t) q, b)"
| "ains t (v # vs) q b =
     (case fget (subforest t) v of
        Some tk \<Rightarrow>
          (case ains tk vs q b of None \<Rightarrow> None
           | Some (tk', b') \<Rightarrow> Some (ANode (root_addr t) (fupd (subforest t) v tk') (node_pi t), b'))
      | None \<Rightarrow>
          if length (f_edges (subforest t)) = MAX_CHILDREN - 1 then None
          else
            (case ains (ANode b FNil zero_pi) vs q (Suc b) of None \<Rightarrow> None
             | Some (t', b') \<Rightarrow> Some (ANode (root_addr t) (fsnoc (subforest t) v t') (node_pi t), b')))"

fun abuild ::
    "atree \<Rightarrow> (16 word list \<times> pi_container) list \<Rightarrow> addr \<Rightarrow> (atree \<times> addr) option" where
  "abuild t [] b = Some (t, b)"
| "abuild t ((s, q) # T) b =
     (case ains t s q b of None \<Rightarrow> None | Some (t', b') \<Rightarrow> abuild t' T b')"

definition ins_refines ::
    "memory \<Rightarrow> atree \<Rightarrow> addr option \<Rightarrow> 16 word list \<Rightarrow> pi_container \<Rightarrow> bool" where
  "ins_refines m t sib vs q =
     (case ains t vs q (brk m) of
        None \<Rightarrow> add_symbols m (Some (root_addr t)) vs q = Inl NullDeref
      | Some (t', b') \<Rightarrow>
          (\<exists>m'. add_symbols m (Some (root_addr t)) vs q = Inr m' \<and> trep m' t' sib
                \<and> brk m' = b' \<and> same_on ({..<brk m} - taddrs t) m m'))"

text \<open>Measures and invariants of trees.\<close>

primrec maxdeg :: "atree \<Rightarrow> nat" and fmaxdeg :: "forest \<Rightarrow> nat" where
  "maxdeg (ANode a f p) = max (length (f_edges f)) (fmaxdeg f)"
| "fmaxdeg FNil = 0"
| "fmaxdeg (FCons e t f) = max (maxdeg t) (fmaxdeg f)"

primrec tde :: "atree \<Rightarrow> bool" and fde :: "forest \<Rightarrow> bool" where
  "tde (ANode a f p) = (distinct (f_edges f) \<and> fde f)"
| "fde FNil = True"
| "fde (FCons e t f) = (tde t \<and> fde f)"

fun pathlen :: "atree \<Rightarrow> 16 word list \<Rightarrow> nat" where
  "pathlen t [] = 0"
| "pathlen t (v # vs) =
     (case fget (subforest t) v of None \<Rightarrow> 0 | Some tk \<Rightarrow> Suc (pathlen tk vs))"

fun alookup :: "atree \<Rightarrow> 16 word list \<Rightarrow> atree option" where
  "alookup t [] = Some t"
| "alookup t (v # vs) =
     (case fget (subforest t) v of None \<Rightarrow> None | Some tk \<Rightarrow> alookup tk vs)"

definition tsound :: "(16 word list \<times> pi_container) set \<Rightarrow> atree \<Rightarrow> bool" where
  "tsound P t \<longleftrightarrow>
     (\<forall>s ts. alookup t s = Some ts \<longrightarrow> app (node_pi ts) \<noteq> 0 \<longrightarrow> (s, node_pi ts) \<in> P)"

primrec tfuel :: "atree \<Rightarrow> nat" and ffuel :: "forest \<Rightarrow> nat" where
  "tfuel (ANode a f p) = Suc (ffuel f)"
| "ffuel FNil = 1"
| "ffuel (FCons e t f) = Suc (max (tfuel t) (ffuel f))"

definition freed :: "addr set \<Rightarrow> memory \<Rightarrow> memory \<Rightarrow> bool" where
  "freed A m m' \<longleftrightarrow> (\<forall>x. cells m' x = (if x \<in> A then None else cells m x))"

text \<open>The search, on trees.\<close>

primrec fmatch :: "forest \<Rightarrow> 8 word \<Rightarrow> (16 word \<times> atree) option" where
  "fmatch FNil d = None"
| "fmatch (FCons e t f) d = (if edge_matches e d then Some (e, t) else fmatch f d)"

fun asearch :: "atree \<Rightarrow> 8 word list \<Rightarrow> atree option" where
  "asearch t [] = None"
| "asearch t (d # ds) =
     (case fmatch (subforest t) d of
        None \<Rightarrow> None
      | Some (e, c) \<Rightarrow>
          if app (node_pi c) \<noteq> 0 then Some c
          else if ds = [] then None
          else asearch c ds)"

definition port_by_tree :: "atree \<Rightarrow> 8 word list \<Rightarrow> 16 word" where
  "port_by_tree t data = (case asearch t data of None \<Rightarrow> 0 | Some c \<Rightarrow> app (node_pi c))"

text \<open>
  States whose dictionary is built, and states in which a classification may
  be requested: the dictionary is built, or it is not yet built and the table
  count is within the array.
\<close>

definition dict_built :: "pstate \<Rightarrow> bool" where
  "dict_built st \<longleftrightarrow> (\<exists>t. kd_root st = Some (root_addr t) \<and> tree_inv (mem st) t)"

definition dict_ready :: "pstate \<Rightarrow> bool" where
  "dict_ready st \<longleftrightarrow>
     (kd_root st = None \<and> unat (num_keywords st) \<le> MAX_KEYWORDS) \<or> dict_built st"

definition built_tree :: "pstate \<Rightarrow> pstate \<Rightarrow> atree \<Rightarrow> bool" where
  "built_tree st st' t \<longleftrightarrow>
     kd_root st' = Some (brk (mem st))
     \<and> keyword_list st' = keyword_list st \<and> num_keywords st' = num_keywords st
     \<and> root_addr t = brk (mem st)
     \<and> tree_inv (mem st') t
     \<and> abuild (ANode (brk (mem st)) FNil zero_pi) (table_of st) (Suc (brk (mem st)))
         = Some (t, brk (mem st'))"

text \<open>The trees of the tables named above.\<close>

definition tls_tree :: atree where
  "tls_tree =
     ANode 0 (FCons 0x16
    (ANode 1 (FCons 0x03
    (ANode 2 (FCons 0x01
    (ANode 3 (FCons WILDCARD
    (ANode 4 (FCons WILDCARD
    (ANode 5 (FCons 0x01 (ANode 6 FNil \<lparr>dir = DIR_CLIENT, app = 443\<rparr>)
             (FCons 0x02 (ANode 7 FNil \<lparr>dir = DIR_SERVER, app = 443\<rparr>) FNil)) zero_pi)
      FNil) zero_pi) FNil) zero_pi) FNil) zero_pi) FNil) zero_pi) FNil) zero_pi"

definition client_tree :: atree where
  "client_tree =
     ANode 0 (FCons 0x16
    (ANode 1 (FCons 0x03
    (ANode 2 (FCons 0x01
    (ANode 3 (FCons WILDCARD
    (ANode 4 (FCons WILDCARD
    (ANode 5 (FCons 0x01 (ANode 6 FNil \<lparr>dir = DIR_CLIENT, app = 443\<rparr>) FNil) zero_pi)
      FNil) zero_pi) FNil) zero_pi) FNil) zero_pi) FNil) zero_pi) FNil) zero_pi"

definition mixed_tree :: atree where
  "mixed_tree =
     ANode 0 (FCons 0x16
    (ANode 1 (FCons 0x03
    (ANode 2 (FCons 0x01
    (ANode 3 (FCons WILDCARD
    (ANode 4 (FCons WILDCARD
    (ANode 5 (FCons 0x01 (ANode 6 FNil \<lparr>dir = DIR_CLIENT, app = 443\<rparr>) FNil) zero_pi)
      FNil) zero_pi) FNil) zero_pi) FNil) zero_pi) FNil) zero_pi)
    (FCons 0x80 (ANode 7 (FCons 0x01 (ANode 8 FNil \<lparr>dir = DIR_CLIENT, app = 80\<rparr>) FNil)
                   zero_pi) FNil)) zero_pi"


section \<open>Properties\<close>

subsection \<open>The signature table\<close>

lemma unat_sizeof_u16:
  assumes "length v < 2 ^ 31"
  shows "unat (sizeof_u16 v) = 2 * length v"
proof -
  have "unat (2 * (of_nat (length v) :: 32 word)) = (2 * length v) mod 2 ^ 32"
    by (simp add: unat_word_ariths unat_of_nat mod_mult_right_eq)
  moreover have "2 * length v < 2 ^ 32" using assms by simp
  ultimately show ?thesis by (simp add: sizeof_u16_def)
qed

lemma sizeof_gt_iff:
  assumes "length v < 2 ^ 31"
  shows "sizeof_u16 v > MAX_VAL_BYTES \<longleftrightarrow> length v > MAX_VAL_LEN"
  using unat_sizeof_u16[OF assms]
  by (simp add: word_less_nat_alt MAX_VAL_BYTES_def MAX_VAL_LEN_def)

lemma sizeof_div2:
  assumes "length v < 2 ^ 31"
  shows "unat (sizeof_u16 v div 2) = length v"
  using unat_sizeof_u16[OF assms] by (simp add: unat_div)

lemma memcpy_u16_even:
  "even n \<Longrightarrow> memcpy_u16 dst src n = take (n div 2) src @ drop (n div 2) dst"
  by (simp add: memcpy_u16_def Let_def)

lemma memcpy_u16_odd_example:
  "memcpy_u16 [0, 0, 0] [0x1234, 0xABCD] 3 = [0x1234, 0x00CD, 0]"
  "memcpy_u16 [0x1111, 0x2222, 0x3333] [0x1234, 0xABCD] 3 = [0x1234, 0x22CD, 0x3333]"
  by (simp_all add: memcpy_u16_def Let_def)

lemma add_keyword_fail_iff:
  "fst (add_keyword v n p st) \<noteq> AddOk \<longleftrightarrow>
     MAX_KEYWORDS \<le> unat (num_keywords st) \<or> MAX_VAL_BYTES < n"
  by (simp add: add_keyword_def Let_def)

lemma add_keyword_fail_same:
  "fst (add_keyword v n p st) \<noteq> AddOk \<Longrightarrow> snd (add_keyword v n p st) = st"
  by (simp add: add_keyword_def Let_def split: if_splits)

lemma table_of_append:
  assumes len: "length (keyword_list st) = MAX_KEYWORDS"
    and small: "length v < 2 ^ 31"
    and ok: "fst (add_keyword v (sizeof_u16 v) p st) = AddOk"
  shows "table_of (snd (add_keyword v (sizeof_u16 v) p st)) = table_of st @ [(v, p)]"
proof -
  let ?i = "unat (num_keywords st)"
  from ok have lt: "?i < MAX_KEYWORDS" and le: "\<not> MAX_VAL_BYTES < sizeof_u16 v"
    by (auto simp: add_keyword_def Let_def split: if_splits)
  have suc: "unat (num_keywords st + 1) = Suc ?i"
    using lt by (simp add: unat_word_ariths MAX_KEYWORDS_def)
  have ilen: "?i < length (keyword_list st)" using lt len by simp
  show ?thesis
    using lt le suc ilen sizeof_div2[OF small]
    by (simp add: add_keyword_def Let_def table_of_def sig_of_def take_Suc_conv_app_nth
                  memcpy_u16_even unat_sizeof_u16[OF small])
qed

lemma add_keyword_fields:
  "kd_root (snd (add_keyword v n p st)) = kd_root st"
  "mem (snd (add_keyword v n p st)) = mem st"
  "length (keyword_list (snd (add_keyword v n p st))) = length (keyword_list st)"
  by (simp_all add: add_keyword_def Let_def)

lemma add_keyword_ok:
  "unat (num_keywords st) < MAX_KEYWORDS \<Longrightarrow> length v \<le> MAX_VAL_LEN \<Longrightarrow>
   fst (add_keyword v (sizeof_u16 v) p st) = AddOk
   \<and> unat (num_keywords (snd (add_keyword v (sizeof_u16 v) p st))) = Suc (unat (num_keywords st))"
proof -
  assume a: "unat (num_keywords st) < MAX_KEYWORDS" "length v \<le> MAX_VAL_LEN"
  then have "length v < 2 ^ 31" by (simp add: MAX_VAL_LEN_def)
  from unat_sizeof_u16[OF this] a(2) have "\<not> MAX_VAL_BYTES < sizeof_u16 v"
    by (simp add: word_less_nat_alt MAX_VAL_BYTES_def MAX_VAL_LEN_def)
  with a(1) show ?thesis
    by (simp add: add_keyword_def Let_def unat_word_ariths MAX_KEYWORDS_def)
qed

subsection \<open>Heaps that agree on a set of addresses\<close>

lemma same_on_subset: "same_on A m m' \<Longrightarrow> B \<subseteq> A \<Longrightarrow> same_on B m m'"
  by (auto simp: same_on_def)

lemma same_on_trans: "same_on A m m' \<Longrightarrow> same_on A m' m'' \<Longrightarrow> same_on A m m''"
  by (simp add: same_on_def)

lemma same_onD: "same_on A m m' \<Longrightarrow> x \<in> A \<Longrightarrow> cells m' x = cells m x"
  by (simp add: same_on_def)

lemma same_on_via:
  assumes "same_on A m1 m'" and "\<And>x. x \<in> B \<Longrightarrow> x \<in> A \<and> cells m1 x = cells m x"
  shows "same_on B m m'"
  using assms by (simp add: same_on_def)

lemma same_on_Un: "same_on (A \<union> B) m m' \<longleftrightarrow> same_on A m m' \<and> same_on B m m'"
  by (auto simp: same_on_def)

lemma same_on_insert: "same_on (insert a A) m m' \<longleftrightarrow> cells m' a = cells m a \<and> same_on A m m'"
  by (auto simp: same_on_def)

lemma rep_frame:
  shows trep_frame: "trep m t sib \<Longrightarrow> same_on (taddrs t) m m' \<Longrightarrow> trep m' t sib"
    and frep_frame: "frep m f \<Longrightarrow> same_on (faddrs f) m m' \<Longrightarrow> frep m' f"
proof (induction t and f arbitrary: sib)
  case (ANode a f p)
  then show ?case
    by (auto simp: same_on_insert split: option.splits)
next
  case FNil
  then show ?case by simp
next
  case (FCons e t f)
  then show ?case by (auto simp: same_on_Un)
qed

subsection \<open>Reading a represented tree\<close>

lemma trep_cell:
  "trep m t sib \<Longrightarrow> \<exists>n. cells m (root_addr t) = Some n \<and> sibling n = sib \<and> pi n = node_pi t
      \<and> child n = first_addr (subforest t)
      \<and> unat (num_children n) = length (f_edges (subforest t))
      \<and> length (f_edges (subforest t)) < MAX_CHILDREN
      \<and> length (edge n) = MAX_CHILDREN
      \<and> take (unat (num_children n)) (edge n) = f_edges (subforest t)
      \<and> frep m (subforest t)"
  by (cases t) (auto split: option.splits)

lemma trep_resib:
  assumes "trep m t sib"
    and "cells m' (root_addr t) = map_option (\<lambda>n. n\<lparr>sibling := sib'\<rparr>) (cells m (root_addr t))"
    and "same_on (faddrs (subforest t)) m m'"
  shows "trep m' t sib'"
  using assms by (cases t) (auto split: option.splits intro: frep_frame)

lemma root_in_taddrs [simp]: "root_addr t \<in> taddrs t"
  by (cases t) simp

lemma forest_induct [case_names FNil FCons]:
  assumes "P FNil" and "\<And>e t f. P f \<Longrightarrow> P (FCons e t f)"
  shows "P f"
  by (rule forest.induct[where ?P1.0 = "\<lambda>_. True" and ?P2.0 = P]) (use assms in auto)

lemma scan_children_rep:
  "frep m (FCons e t f) \<Longrightarrow>
   scan_children m v (e # f_edges f) (root_addr t) =
     Inr (case fget (FCons e t f) v of
            Some tk \<Rightarrow> (True, root_addr tk)
          | None \<Rightarrow> (False, last_root t f))"
proof (induction f arbitrary: e t rule: forest_induct)
  case FNil
  then show ?case by (auto dest!: trep_cell)
next
  case (FCons e' t' f')
  from FCons.prems have r: "frep m (FCons e' t' f')" by simp
  from FCons.prems obtain n where
    n: "cells m (root_addr t) = Some n" "sibling n = Some (root_addr t')"
    by (auto dest!: trep_cell)
  show ?case
  proof (cases "v = e")
    case True
    then show ?thesis by simp
  next
    case False
    then show ?thesis using FCons.IH[OF r] n by (auto split: if_splits option.splits)
  qed
qed

subsection \<open>Forest operations\<close>

lemma fget_None_iff: "fget f v = None \<longleftrightarrow> v \<notin> set (f_edges f)"
  by (induction f rule: forest_induct) auto

lemma fget_addrs: "fget f v = Some tk \<Longrightarrow> taddrs tk \<subseteq> faddrs f"
  by (induction f rule: forest_induct) (auto split: if_splits)

lemma fget_dist: "fget f v = Some tk \<Longrightarrow> fdist f \<Longrightarrow> tdist tk"
  by (induction f rule: forest_induct) (auto split: if_splits)

lemma fget_rep: "fget f v = Some tk \<Longrightarrow> frep m f \<Longrightarrow> trep m tk (fsib f v)"
  by (induction f rule: forest_induct) (auto split: if_splits)

lemma last_root_in: "last_root t f \<in> taddrs t \<union> faddrs f"
  by (induction f arbitrary: t rule: forest_induct) auto

lemma f_edges_fupd [simp]: "f_edges (fupd f v t') = f_edges f"
  by (induction f rule: forest_induct) auto

lemma first_addr_fupd:
  "fget f v = Some tk \<Longrightarrow> root_addr tk' = root_addr tk \<Longrightarrow>
   first_addr (fupd f v tk') = first_addr f"
  by (cases f) (auto split: if_splits)

lemma fsib_fupd:
  "fget f v = Some tk \<Longrightarrow> root_addr tk' = root_addr tk \<Longrightarrow> fsib (fupd f v tk') w = fsib f w"
  by (induction f rule: forest_induct) (auto split: if_splits simp: first_addr_fupd)

lemma f_edges_fsnoc [simp]: "f_edges (fsnoc f v t') = f_edges f @ [v]"
  by (induction f rule: forest_induct) auto

lemma first_addr_fsnoc:
  "first_addr (fsnoc f v t') = (case first_addr f of None \<Rightarrow> Some (root_addr t') | Some a \<Rightarrow> Some a)"
  by (cases f) auto

lemma faddrs_fsnoc [simp]: "faddrs (fsnoc f v t') = faddrs f \<union> taddrs t'"
  by (induction f rule: forest_induct) auto

lemma faddrs_fupd:
  "fget f v = Some tk \<Longrightarrow> taddrs tk' = taddrs tk \<union> X \<Longrightarrow>
   faddrs (fupd f v tk') = faddrs f \<union> X"
  by (induction f rule: forest_induct) (auto split: if_splits)

lemma fdist_fsnoc:
  "fdist f \<Longrightarrow> tdist t' \<Longrightarrow> faddrs f \<inter> taddrs t' = {} \<Longrightarrow> fdist (fsnoc f v t')"
  by (induction f rule: forest_induct) auto

lemma fdist_fupd:
  "fdist f \<Longrightarrow> fget f v = Some tk \<Longrightarrow> tdist tk' \<Longrightarrow> taddrs tk' = taddrs tk \<union> X \<Longrightarrow>
   X \<inter> faddrs f = {} \<Longrightarrow> fdist (fupd f v tk')"
proof (induction f rule: forest_induct)
  case FNil
  then show ?case by simp
next
  case (FCons e t f)
  show ?case
  proof (cases "v = e")
    case True
    with FCons.prems show ?thesis by auto
  next
    case False
    with FCons.prems have g: "fget f v = Some tk" by simp
    from FCons.prems have x: "X \<inter> faddrs f = {}" "X \<inter> taddrs t = {}" by auto
    have d: "fdist (fupd f v tk')"
      using FCons.IH FCons.prems g x by simp
    show ?thesis
      using False d FCons.prems x faddrs_fupd[OF g FCons.prems(4)] by auto
  qed
qed

lemma frep_fupd:
  assumes "frep m f" and "fdist f" and "fget f v = Some tk"
    and "same_on (faddrs f - taddrs tk) m m'"
    and "trep m' tk' (fsib f v)"
    and "root_addr tk' = root_addr tk"
  shows "frep m' (fupd f v tk')"
  using assms
proof (induction f rule: forest_induct)
  case FNil
  then show ?case by simp
next
  case (FCons e t f)
  show ?case
  proof (cases "v = e")
    case True
    with FCons.prems have tk: "tk = t" by simp
    have "same_on (faddrs f) m m'"
      using FCons.prems(2,4) tk by (auto simp: same_on_def)
    with FCons.prems True show ?thesis
      by (auto intro: frep_frame)
  next
    case False
    with FCons.prems have g: "fget f v = Some tk" by simp
    have sub: "taddrs tk \<subseteq> faddrs f" using g by (rule fget_addrs)
    have s1: "same_on (faddrs f - taddrs tk) m m'"
      using FCons.prems(4) by (auto simp: same_on_def)
    have s2: "same_on (taddrs t) m m'"
      using FCons.prems(2,4) sub by (auto simp: same_on_def)
    have r: "frep m' (fupd f v tk')"
      using FCons.IH FCons.prems g s1 False by simp
    have "trep m' t (first_addr (fupd f v tk'))"
      using FCons.prems(1) s2 first_addr_fupd[OF g FCons.prems(6)]
      by (auto intro: trep_frame)
    with r False show ?thesis by simp
  qed
qed

lemma frep_fsnoc:
  assumes "frep m (FCons e t f)" and "fdist (FCons e t f)"
    and "cells m' (last_root t f) = map_option (\<lambda>n. n\<lparr>sibling := Some (root_addr t0)\<rparr>) (cells m (last_root t f))"
    and "same_on (faddrs (FCons e t f) - {last_root t f}) m m'"
    and "trep m' t0 None"
  shows "frep m' (fsnoc (FCons e t f) v t0)"
  using assms
proof (induction f arbitrary: e t rule: forest_induct)
  case FNil
  have "same_on (faddrs (subforest t)) m m'"
    using FNil.prems(2,4) by (cases t) (auto simp: same_on_def)
  with FNil.prems have "trep m' t (Some (root_addr t0))"
    by (auto intro: trep_resib)
  with FNil.prems show ?case by simp
next
  case (FCons e' t' f')
  have l: "last_root t' f' \<in> taddrs t' \<union> faddrs f'" by (rule last_root_in)
  have s: "same_on (taddrs t) m m'"
    using FCons.prems(2,4) l by (auto simp: same_on_def)
  have t: "trep m' t (Some (root_addr t'))"
    using FCons.prems(1) s by (auto intro: trep_frame)
  have s': "same_on (faddrs (FCons e' t' f') - {last_root t' f'}) m m'"
    using FCons.prems(4) by (auto simp: same_on_def)
  have "frep m' (fsnoc (FCons e' t' f') v t0)"
    using FCons.IH[of e' t'] FCons.prems s' by simp
  with t show ?case by simp
qed

subsection \<open>Insertion on trees keeps addresses apart\<close>

lemma ains_root: "ains t vs q b = Some (t', b') \<Longrightarrow> root_addr t' = root_addr t"
  by (cases vs) (auto split: option.splits if_splits)

lemma ains_inv:
  "ains t vs q b = Some (t', b') \<Longrightarrow> tdist t \<Longrightarrow> taddrs t \<subseteq> {..<b} \<Longrightarrow>
   tdist t' \<and> b \<le> b' \<and> taddrs t' = taddrs t \<union> {b..<b'}"
proof (induction vs arbitrary: t b t' b')
  case Nil
  then show ?case by (cases t) auto
next
  case (Cons v vs)
  obtain a f p where t: "t = ANode a f p" by (cases t)
  from Cons.prems(2) t have af: "a \<notin> faddrs f" and df: "fdist f" by simp_all
  from Cons.prems(3) t have ab: "a < b" and fb: "faddrs f \<subseteq> {..<b}" by simp_all
  show ?case
  proof (cases "fget f v")
    case None
    with Cons.prems(1) t obtain t0 where
      i: "ains (ANode b FNil zero_pi) vs q (Suc b) = Some (t0, b')"
      and t': "t' = ANode a (fsnoc f v t0) p"
      by (auto split: if_splits option.splits prod.splits)
    have "tdist t0 \<and> Suc b \<le> b' \<and> taddrs t0 = taddrs (ANode b FNil zero_pi) \<union> {Suc b..<b'}"
      by (rule Cons.IH[OF i]) simp_all
    then have d0: "tdist t0" and le: "Suc b \<le> b'"
      and a0': "taddrs t0 = insert b {Suc b..<b'}"
      by simp_all
    have a0: "taddrs t0 = {b..<b'}" unfolding a0' using le by auto
    have x: "faddrs f \<inter> {b..<b'} = {}" using fb by auto
    have y: "a \<notin> {b..<b'}" using ab by simp
    have 1: "tdist t'"
      unfolding t' using af df d0 x y by (simp add: fdist_fsnoc a0)
    have 2: "taddrs t' = taddrs t \<union> {b..<b'}"
      unfolding t' t by (simp add: a0)
    from 1 2 le show ?thesis by simp
  next
    case (Some tk)
    with Cons.prems(1) t obtain tk' where
      i: "ains tk vs q b = Some (tk', b')"
      and t': "t' = ANode a (fupd f v tk') p"
      by (auto split: option.splits prod.splits)
    have sub: "taddrs tk \<subseteq> faddrs f" using Some by (rule fget_addrs)
    have dk: "tdist tk" using Some df by (rule fget_dist)
    have kb: "taddrs tk \<subseteq> {..<b}" using sub fb by blast
    have "tdist tk' \<and> b \<le> b' \<and> taddrs tk' = taddrs tk \<union> {b..<b'}"
      by (rule Cons.IH[OF i dk kb])
    then have d': "tdist tk'" and le: "b \<le> b'" and a': "taddrs tk' = taddrs tk \<union> {b..<b'}"
      by simp_all
    have x: "{b..<b'} \<inter> faddrs f = {}" using fb by auto
    have y: "a \<notin> {b..<b'}" using ab by simp
    have fa: "faddrs (fupd f v tk') = faddrs f \<union> {b..<b'}"
      using Some a' by (rule faddrs_fupd)
    have fd: "fdist (fupd f v tk')"
      using df Some d' a' x by (rule fdist_fupd)
    have 1: "tdist t'" unfolding t' using fa fd af y by simp
    have 2: "taddrs t' = taddrs t \<union> {b..<b'}" unfolding t' t using fa by simp
    from 1 2 le show ?thesis by simp
  qed
qed

subsection \<open>\<open>keyword_dict_add_keyword\<close> refines insertion on trees\<close>

lemma add_symbols_None [simp]: "add_symbols m None vs q = Inl NullDeref"
  by (cases vs) simp_all

lemma last_root_cell:
  "frep m (FCons e t f) \<Longrightarrow> \<exists>cn. cells m (last_root t f) = Some cn \<and> sibling cn = None"
  by (induction f arbitrary: e t rule: forest_induct) (auto dest!: trep_cell)

lemma step_match:
  assumes "trep m (ANode a f p) sib" and "fget f v = Some tk"
  shows "add_symbols m (Some a) (v # vs) q = add_symbols m (Some (root_addr tk)) vs q"
proof -
  from assms(2) obtain e t1 f1 where f: "f = FCons e t1 f1" by (cases f) auto
  from trep_cell[OF assms(1)] obtain n where n: "cells m a = Some n"
      "child n = Some (root_addr t1)"
      "take (unat (num_children n)) (edge n) = e # f_edges f1" "frep m (FCons e t1 f1)"
    unfolding f by auto
  show ?thesis
    using n assms(2) scan_children_rep[OF n(4), of v] unfolding f
    by (simp split: if_splits)
qed

lemma step_full:
  assumes "trep m (ANode a f p) sib" and "fget f v = None"
    and "length (f_edges f) = MAX_CHILDREN - 1"
  shows "add_symbols m (Some a) (v # vs) q = Inl NullDeref"
proof -
  from assms(3) obtain e t1 f1 where f: "f = FCons e t1 f1"
    by (cases f) (auto simp: MAX_CHILDREN_def)
  from trep_cell[OF assms(1)] obtain n where n: "cells m a = Some n"
      "child n = Some (root_addr t1)"
      "take (unat (num_children n)) (edge n) = e # f_edges f1" "frep m (FCons e t1 f1)"
      "unat (num_children n) = length (f_edges f)"
    unfolding f by auto
  from last_root_cell[OF n(4)] obtain cn where cn: "cells m (last_root t1 f1) = Some cn"
    by blast
  show ?thesis
    using n cn assms(2,3) scan_children_rep[OF n(4), of v] unfolding f
    by (simp add: kdn_create_sibling_def split: if_splits)
qed

lemma step_first_child:
  assumes "trep m (ANode a FNil p) sib" and "a < brk m"
  shows "\<exists>m1. add_symbols m (Some a) (v # vs) q = add_symbols m1 (Some (brk m)) vs q
      \<and> brk m1 = Suc (brk m)
      \<and> cells m1 (brk m) = Some zero_node
      \<and> cells m1 a = map_option (\<lambda>n. n\<lparr>child := Some (brk m), edge := (edge n)[0 := v],
                                         num_children := 1\<rparr>) (cells m a)
      \<and> (\<forall>x. x \<noteq> a \<and> x \<noteq> brk m \<longrightarrow> cells m1 x = cells m x)"
proof -
  from assms(1) obtain n where n: "cells m a = Some n" "child n = None"
      "unat (num_children n) = 0"
    by (auto split: option.splits)
  from n(3) have z: "num_children n = 0" by (simp add: unat_eq_0)
  let ?m1 = "m\<lparr>brk := Suc (brk m),
               cells := (cells m)(brk m \<mapsto> zero_node,
                 a \<mapsto> n\<lparr>child := Some (brk m), edge := (edge n)[0 := v], num_children := 1\<rparr>)\<rparr>"
  have "add_symbols m (Some a) (v # vs) q = add_symbols ?m1 (Some (brk m)) vs q"
    using n z assms(2)
    by (simp add: kdn_create_child_def alloc_kdn_def upd_node_def)
  then show ?thesis
    using n assms(2) by (intro exI[of _ ?m1]) simp
qed

lemma step_new_sibling:
  assumes r: "trep m (ANode a (FCons e t1 f1) p) sib"
    and g: "fget (FCons e t1 f1) v = None"
    and nf: "length (f_edges (FCons e t1 f1)) \<noteq> MAX_CHILDREN - 1"
    and d: "tdist (ANode a (FCons e t1 f1) p)"
    and b: "taddrs (ANode a (FCons e t1 f1) p) \<subseteq> {..<brk m}"
  shows "\<exists>m3. add_symbols m (Some a) (v # vs) q = add_symbols m3 (Some (brk m)) vs q
      \<and> brk m3 = Suc (brk m)
      \<and> cells m3 (brk m) = Some zero_node
      \<and> cells m3 a = map_option (\<lambda>n. n\<lparr>edge := (edge n)[unat (num_children n) := v],
                                         num_children := num_children n + 1\<rparr>) (cells m a)
      \<and> cells m3 (last_root t1 f1)
           = map_option (\<lambda>n. n\<lparr>sibling := Some (brk m)\<rparr>) (cells m (last_root t1 f1))
      \<and> (\<forall>x. x \<noteq> a \<and> x \<noteq> last_root t1 f1 \<and> x \<noteq> brk m \<longrightarrow> cells m3 x = cells m x)"
proof -
  let ?cl = "last_root t1 f1"
  from trep_cell[OF r] obtain n where n: "cells m a = Some n"
      "child n = Some (root_addr t1)"
      "take (unat (num_children n)) (edge n) = e # f_edges f1" "frep m (FCons e t1 f1)"
      "unat (num_children n) = length (f_edges (FCons e t1 f1))"
      "length (f_edges (FCons e t1 f1)) < MAX_CHILDREN"
    by auto
  from last_root_cell[OF n(4)] obtain cn where cn: "cells m ?cl = Some cn"
    by blast
  have clin: "?cl \<in> faddrs (FCons e t1 f1)" using last_root_in[of t1 f1] by simp
  with d have ne: "a \<noteq> ?cl" by auto
  from b have ab: "a \<noteq> brk m" by auto
  from b clin have cb: "?cl \<noteq> brk m" by auto
  have lt: "unat (num_children n) < MAX_CHILDREN" using n(5,6) by simp
  have nf': "unat (num_children n) \<noteq> MAX_CHILDREN - 1" using n(5) nf by simp
  have sc: "scan_children m v (e # f_edges f1) (root_addr t1) = Inr (False, ?cl)"
    using scan_children_rep[OF n(4), of v] g by simp
  let ?m3 = "m\<lparr>brk := Suc (brk m),
               cells := (cells m)(brk m \<mapsto> zero_node,
                 ?cl \<mapsto> cn\<lparr>sibling := Some (brk m)\<rparr>,
                 a \<mapsto> n\<lparr>edge := (edge n)[unat (num_children n) := v],
                        num_children := num_children n + 1\<rparr>)\<rparr>"
  have "add_symbols m (Some a) (v # vs) q = add_symbols ?m3 (Some (brk m)) vs q"
    using n(1,2,3) cn ne ab cb lt nf' sc
    by (simp add: kdn_create_sibling_def alloc_kdn_def upd_node_def Let_def)
  then show ?thesis
    using n(1) cn ne ab cb by (intro exI[of _ ?m3]) simp
qed

lemma new_node_rep: "cells m b = Some zero_node \<Longrightarrow> trep m (ANode b FNil zero_pi) None"
  by (simp add: zero_node_def MAX_CHILDREN_def)

lemma unat_nc_suc:
  "unat (x :: 16 word) < MAX_CHILDREN \<Longrightarrow> unat (x + 1) = Suc (unat x)"
  by (simp add: unat_word_ariths MAX_CHILDREN_def)

lemma refine_nil:
  assumes "trep m t sib" and "tdist t" and "taddrs t \<subseteq> {..<brk m}"
  shows "ins_refines m t sib [] q"
proof -
  obtain a f p where t: "t = ANode a f p" by (cases t)
  from assms(1) t obtain n where n: "cells m a = Some n" by (auto split: option.splits)
  let ?m' = "upd_node m a (\<lambda>n. n\<lparr>pi := q\<rparr>)"
  have s: "same_on (faddrs f) m ?m'"
    using assms(2) t by (auto simp: same_on_def upd_node_def)
  have f: "frep ?m' f"
    using assms(1) t s by (auto split: option.splits intro: frep_frame)
  have r: "trep ?m' (ANode a f q) sib"
    using assms(1) t n f by (simp add: upd_node_def)
  have o: "same_on ({..<brk m} - taddrs t) m ?m'"
    using t by (simp add: same_on_def upd_node_def)
  have b: "brk ?m' = brk m" by (simp add: upd_node_def)
  show ?thesis
    using n r o b t by (simp add: ins_refines_def)
qed

lemma refine_match:
  assumes r: "trep m (ANode a f p) sib" and d: "tdist (ANode a f p)"
    and b: "taddrs (ANode a f p) \<subseteq> {..<brk m}"
    and g: "fget f v = Some tk"
    and ih: "ins_refines m tk (fsib f v) vs q"
  shows "ins_refines m (ANode a f p) sib (v # vs) q"
proof (cases "ains tk vs q (brk m)")
  case None
  with ih g step_match[OF r g] show ?thesis
    by (simp add: ins_refines_def)
next
  case (Some x)
  obtain tk' b' where x: "x = (tk', b')" by (cases x)
  from ih Some x obtain m' where
    m': "add_symbols m (Some (root_addr tk)) vs q = Inr m'" "trep m' tk' (fsib f v)"
        "brk m' = b'" "same_on ({..<brk m} - taddrs tk) m m'"
    by (auto simp: ins_refines_def)
  have root: "root_addr tk' = root_addr tk"
    using Some x by (auto intro: ains_root)
  have sub: "taddrs tk \<subseteq> faddrs f" using g by (rule fget_addrs)
  from d have af: "a \<notin> faddrs f" and df: "fdist f" by simp_all
  from trep_cell[OF r] obtain n where n: "cells m a = Some n" "sibling n = sib" "pi n = p"
      "child n = first_addr f" "unat (num_children n) = length (f_edges f)"
      "length (f_edges f) < MAX_CHILDREN" "length (edge n) = MAX_CHILDREN"
      "take (unat (num_children n)) (edge n) = f_edges f" "frep m f"
    by auto
  have "a \<in> {..<brk m} - taddrs tk" using af sub b by auto
  from same_onD[OF m'(4) this] have ca: "cells m' a = Some n"
    using n(1) by simp
  have s1: "same_on (faddrs f - taddrs tk) m m'"
    using m'(4) b by (auto simp: same_on_def)
  have fr: "frep m' (fupd f v tk')"
    using n(9) df g s1 m'(2) root by (rule frep_fupd)
  have fa: "first_addr (fupd f v tk') = first_addr f"
    using g root by (rule first_addr_fupd)
  have tr: "trep m' (ANode a (fupd f v tk') p) sib"
    using ca n fr fa by simp
  have so: "same_on ({..<brk m} - taddrs (ANode a f p)) m m'"
    using m'(4) sub by (auto simp: same_on_def)
  show ?thesis
    using Some x g step_match[OF r g, of vs q] m'(1,3) tr so
    by (simp add: ins_refines_def)
qed

lemma refine_full:
  assumes "trep m (ANode a f p) sib" and "fget f v = None"
    and "length (f_edges f) = MAX_CHILDREN - 1"
  shows "ins_refines m (ANode a f p) sib (v # vs) q"
  using assms step_full[OF assms] by (simp add: ins_refines_def)

lemma refine_first_child:
  assumes r: "trep m (ANode a FNil p) sib" and b: "a < brk m"
    and ih: "\<And>m1. cells m1 (brk m) = Some zero_node \<Longrightarrow> brk m1 = Suc (brk m) \<Longrightarrow>
               ins_refines m1 (ANode (brk m) FNil zero_pi) None vs q"
  shows "ins_refines m (ANode a FNil p) sib (v # vs) q"
proof -
  let ?t0 = "ANode (brk m) FNil zero_pi"
  from step_first_child[OF r b, of v vs q] obtain m1 where
    m1: "add_symbols m (Some a) (v # vs) q = add_symbols m1 (Some (brk m)) vs q"
        "brk m1 = Suc (brk m)" "cells m1 (brk m) = Some zero_node"
        "cells m1 a = map_option (\<lambda>n. n\<lparr>child := Some (brk m), edge := (edge n)[0 := v],
                                         num_children := 1\<rparr>) (cells m a)"
        "\<forall>x. x \<noteq> a \<and> x \<noteq> brk m \<longrightarrow> cells m1 x = cells m x"
    by blast
  have ih': "ins_refines m1 ?t0 None vs q" using m1(3,2) by (rule ih)
  from trep_cell[OF r] obtain n where n: "cells m a = Some n" "sibling n = sib" "pi n = p"
      "length (edge n) = MAX_CHILDREN"
    by auto
  show ?thesis
  proof (cases "ains ?t0 vs q (Suc (brk m))")
    case None
    with ih' m1(1,2) show ?thesis
      by (simp add: ins_refines_def MAX_CHILDREN_def)
  next
    case (Some x)
    obtain t0' b' where x: "x = (t0', b')" by (cases x)
    from ih' Some x m1(2) obtain m' where
      m': "add_symbols m1 (Some (brk m)) vs q = Inr m'" "trep m' t0' None"
          "brk m' = b'" "same_on ({..<Suc (brk m)} - {brk m}) m1 m'"
      by (auto simp: ins_refines_def)
    have root: "root_addr t0' = brk m"
      using ains_root[of ?t0 vs q "Suc (brk m)" t0' b'] Some x by simp
    have "a \<in> {..<Suc (brk m)} - {brk m}" using b by auto
    from same_onD[OF m'(4) this]
    have ca: "cells m' a = Some (n\<lparr>child := Some (brk m), edge := (edge n)[0 := v],
                                         num_children := 1\<rparr>)"
      using m1(4) n(1) by simp
    have tr: "trep m' (ANode a (FCons v t0' FNil) p) sib"
      using ca n m'(2) root by (simp add: MAX_CHILDREN_def take_Suc_conv_app_nth)
    have so: "same_on ({..<brk m} - taddrs (ANode a FNil p)) m m'"
      by (rule same_on_via[OF m'(4)]) (use m1(5) in auto)
    show ?thesis
      using Some x m1(1) m'(1,3) tr so
      by (simp add: ins_refines_def MAX_CHILDREN_def)
  qed
qed

lemma refine_new_sibling:
  assumes r: "trep m (ANode a (FCons e t1 f1) p) sib"
    and g: "fget (FCons e t1 f1) v = None"
    and nf: "length (f_edges (FCons e t1 f1)) \<noteq> MAX_CHILDREN - 1"
    and d: "tdist (ANode a (FCons e t1 f1) p)"
    and b: "taddrs (ANode a (FCons e t1 f1) p) \<subseteq> {..<brk m}"
    and ih: "\<And>m1. cells m1 (brk m) = Some zero_node \<Longrightarrow> brk m1 = Suc (brk m) \<Longrightarrow>
               ins_refines m1 (ANode (brk m) FNil zero_pi) None vs q"
  shows "ins_refines m (ANode a (FCons e t1 f1) p) sib (v # vs) q"
proof -
  let ?t0 = "ANode (brk m) FNil zero_pi"
  let ?f = "FCons e t1 f1"
  let ?cl = "last_root t1 f1"
  from step_new_sibling[OF r g nf d b, of vs q] obtain m3 where
    m3: "add_symbols m (Some a) (v # vs) q = add_symbols m3 (Some (brk m)) vs q"
        "brk m3 = Suc (brk m)" "cells m3 (brk m) = Some zero_node"
        "cells m3 a = map_option (\<lambda>n. n\<lparr>edge := (edge n)[unat (num_children n) := v],
                                         num_children := num_children n + 1\<rparr>) (cells m a)"
        "cells m3 ?cl = map_option (\<lambda>n. n\<lparr>sibling := Some (brk m)\<rparr>) (cells m ?cl)"
        "\<forall>x. x \<noteq> a \<and> x \<noteq> ?cl \<and> x \<noteq> brk m \<longrightarrow> cells m3 x = cells m x"
    by blast
  have ih': "ins_refines m3 ?t0 None vs q" using m3(3,2) by (rule ih)
  from trep_cell[OF r] obtain n where n: "cells m a = Some n" "sibling n = sib" "pi n = p"
      "child n = Some (root_addr t1)" "unat (num_children n) = length (f_edges ?f)"
      "length (f_edges ?f) < MAX_CHILDREN" "length (edge n) = MAX_CHILDREN"
      "take (unat (num_children n)) (edge n) = f_edges ?f" "frep m ?f"
    by auto
  have clin: "?cl \<in> faddrs ?f" using last_root_in[of t1 f1] by simp
  from d have af: "a \<notin> faddrs ?f" and df: "fdist ?f" by simp_all
  have ne: "a \<noteq> ?cl" using clin af by auto
  have clb: "?cl < brk m" using clin b by auto
  have ab: "a < brk m" using b by simp
  show ?thesis
  proof (cases "ains ?t0 vs q (Suc (brk m))")
    case None
    with ih' m3(1,2) g nf show ?thesis
      by (simp add: ins_refines_def)
  next
    case (Some x)
    obtain t0' b' where x: "x = (t0', b')" by (cases x)
    from ih' Some x m3(2) obtain m' where
      m': "add_symbols m3 (Some (brk m)) vs q = Inr m'" "trep m' t0' None"
          "brk m' = b'" "same_on ({..<Suc (brk m)} - {brk m}) m3 m'"
      by (auto simp: ins_refines_def)
    have root: "root_addr t0' = brk m"
      using ains_root[of ?t0 vs q "Suc (brk m)" t0' b'] Some x by simp
    have "a \<in> {..<Suc (brk m)} - {brk m}" using ab by auto
    from same_onD[OF m'(4) this]
    have ca: "cells m' a = Some (n\<lparr>edge := (edge n)[unat (num_children n) := v],
                                         num_children := num_children n + 1\<rparr>)"
      using m3(4) n(1) by simp
    have "?cl \<in> {..<Suc (brk m)} - {brk m}" using clb by auto
    from same_onD[OF m'(4) this]
    have cc: "cells m' ?cl = map_option (\<lambda>n. n\<lparr>sibling := Some (root_addr t0')\<rparr>) (cells m ?cl)"
      using m3(5) root by simp
    have s1: "same_on (faddrs ?f - {?cl}) m m'"
      by (rule same_on_via[OF m'(4)]) (use m3(6) af b in auto)
    have fr: "frep m' (fsnoc ?f v t0')"
      using n(9) df cc s1 m'(2) by (rule frep_fsnoc)
    have lt: "unat (num_children n) < MAX_CHILDREN" using n(5,6) by simp
    have len: "Suc (length (f_edges ?f)) < MAX_CHILDREN" using n(6) nf by simp
    have tk: "take (Suc (unat (num_children n))) ((edge n)[unat (num_children n) := v])
                = f_edges ?f @ [v]"
      using n(7,8) lt by (simp add: take_Suc_conv_app_nth)
    have tr: "trep m' (ANode a (fsnoc ?f v t0') p) sib"
      using ca n(2,3,4,5,7) fr len tk unat_nc_suc[OF lt] by simp
    have so: "same_on ({..<brk m} - taddrs (ANode a ?f p)) m m'"
      by (rule same_on_via[OF m'(4)]) (use m3(6) clin in auto)
    show ?thesis
      using Some x g nf m3(1) m'(1,3) tr so
      by (simp add: ins_refines_def)
  qed
qed

theorem add_symbols_refines:
  "trep m t sib \<Longrightarrow> tdist t \<Longrightarrow> taddrs t \<subseteq> {..<brk m} \<Longrightarrow> ins_refines m t sib vs q"
proof (induction vs arbitrary: m t sib)
  case Nil
  then show ?case by (rule refine_nil)
next
  case (Cons v vs)
  obtain a f p where t: "t = ANode a f p" by (cases t)
  have ih0: "ins_refines m1 (ANode b FNil zero_pi) None vs q"
    if c: "cells m1 b = Some zero_node" and k: "brk m1 = Suc b" for m1 b
    by (rule Cons.IH[OF new_node_rep[OF c]]) (simp_all add: k)
  show ?case
  proof (cases "fget f v")
    case (Some tk)
    have "ins_refines m tk (fsib f v) vs q"
    proof (rule Cons.IH)
      show "trep m tk (fsib f v)" using Some Cons.prems(1) t by (auto intro: fget_rep split: option.splits)
      show "tdist tk" using Some Cons.prems(2) t by (auto intro: fget_dist)
      show "taddrs tk \<subseteq> {..<brk m}" using fget_addrs[OF Some] Cons.prems(3) t by auto
    qed
    with Cons.prems Some show ?thesis unfolding t by (intro refine_match)
  next
    case None
    show ?thesis
    proof (cases "length (f_edges f) = MAX_CHILDREN - 1")
      case True
      with Cons.prems None show ?thesis unfolding t by (intro refine_full)
    next
      case False
      show ?thesis
      proof (cases f)
        case FNil
        with Cons.prems t ih0 show ?thesis by (auto intro!: refine_first_child)
      next
        case (FCons e t1 f1)
        with Cons.prems t None False ih0 show ?thesis by (auto intro!: refine_new_sibling)
      qed
    qed
  qed
qed

subsection \<open>Building succeeds while nodes have room\<close>

lemma fget_maxdeg: "fget f v = Some tk \<Longrightarrow> maxdeg tk \<le> fmaxdeg f"
  by (induction f rule: forest_induct) (auto split: if_splits)

lemma fmaxdeg_fsnoc [simp]: "fmaxdeg (fsnoc f v t') = max (fmaxdeg f) (maxdeg t')"
  by (induction f rule: forest_induct) auto

lemma fmaxdeg_fupd:
  "fget f v = Some tk \<Longrightarrow> maxdeg tk' \<le> Suc (maxdeg tk) \<Longrightarrow>
   fmaxdeg (fupd f v tk') \<le> Suc (fmaxdeg f)"
  by (induction f rule: forest_induct) (auto split: if_splits)

lemma ains_succeeds:
  "maxdeg t < MAX_CHILDREN - 1 \<Longrightarrow>
   \<exists>t' b'. ains t vs q b = Some (t', b') \<and> maxdeg t' \<le> Suc (maxdeg t)"
proof (induction vs arbitrary: t b)
  case Nil
  then show ?case by (cases t) auto
next
  case (Cons v vs)
  obtain a f p where t: "t = ANode a f p" by (cases t)
  from Cons.prems t have lf: "length (f_edges f) < MAX_CHILDREN - 1"
    and mf: "fmaxdeg f < MAX_CHILDREN - 1" by simp_all
  show ?case
  proof (cases "fget f v")
    case None
    have "maxdeg (ANode b FNil zero_pi) < MAX_CHILDREN - 1" by (simp add: MAX_CHILDREN_def)
    from Cons.IH[OF this, of "Suc b"] obtain t0 b' where
      i: "ains (ANode b FNil zero_pi) vs q (Suc b) = Some (t0, b')" and m0: "maxdeg t0 \<le> Suc 0"
      by auto
    show ?thesis using None t lf i m0 by auto
  next
    case (Some tk)
    have "maxdeg tk \<le> fmaxdeg f" using Some by (rule fget_maxdeg)
    with mf have "maxdeg tk < MAX_CHILDREN - 1" by simp
    from Cons.IH[OF this, of b] obtain tk' b' where
      i: "ains tk vs q b = Some (tk', b')" and mk: "maxdeg tk' \<le> Suc (maxdeg tk)"
      by auto
    have "fmaxdeg (fupd f v tk') \<le> Suc (fmaxdeg f)"
      using Some mk by (rule fmaxdeg_fupd)
    then show ?thesis using Some t i by auto
  qed
qed

lemma abuild_succeeds:
  "maxdeg t + length T \<le> MAX_CHILDREN - 1 \<Longrightarrow>
   \<exists>t' b'. abuild t T b = Some (t', b') \<and> maxdeg t' \<le> maxdeg t + length T"
proof (induction T arbitrary: t b)
  case Nil
  then show ?case by simp
next
  case (Cons x T)
  obtain s q where x: "x = (s, q)" by (cases x)
  from Cons.prems have "maxdeg t < MAX_CHILDREN - 1" by simp
  from ains_succeeds[OF this, of s q b] obtain t1 b1 where
    i: "ains t s q b = Some (t1, b1)" and m1: "maxdeg t1 \<le> Suc (maxdeg t)" by blast
  from Cons.prems m1 have "maxdeg t1 + length T \<le> MAX_CHILDREN - 1" by simp
  from Cons.IH[OF this, of b1] obtain t' b' where
    "abuild t1 T b1 = Some (t', b')" "maxdeg t' \<le> maxdeg t1 + length T" by blast
  with i m1 x show ?case by simp
qed

lemma add_keyword_refines:
  assumes "tree_inv m t"
  shows "case ains t (fst (sig_of kc)) (snd (sig_of kc)) (brk m) of
           None \<Rightarrow> keyword_dict_add_keyword m (Some (root_addr t)) kc = Inl NullDeref
         | Some (t', b') \<Rightarrow>
             (\<exists>m'. keyword_dict_add_keyword m (Some (root_addr t)) kc = Inr m'
                   \<and> tree_inv m' t' \<and> brk m' = b' \<and> root_addr t' = root_addr t
                   \<and> same_on ({..<brk m} - taddrs t) m m')"
proof -
  let ?s = "fst (sig_of kc)" and ?q = "snd (sig_of kc)"
  from assms have r: "trep m t None" and d: "tdist t" and b: "taddrs t \<subseteq> {..<brk m}"
    by (simp_all add: tree_inv_def)
  have ir: "ins_refines m t None ?s ?q" using r d b by (rule add_symbols_refines)
  have e: "keyword_dict_add_keyword m (Some (root_addr t)) kc
             = add_symbols m (Some (root_addr t)) ?s ?q"
    by (simp add: keyword_dict_add_keyword_def sig_of_def)
  show ?thesis
  proof (cases "ains t ?s ?q (brk m)")
    case None
    with ir e show ?thesis by (simp add: ins_refines_def)
  next
    case (Some x)
    obtain t' b' where x: "x = (t', b')" by (cases x)
    from ir Some x obtain m' where
      m': "add_symbols m (Some (root_addr t)) ?s ?q = Inr m'" "trep m' t' None"
          "brk m' = b'" "same_on ({..<brk m} - taddrs t) m m'"
      by (auto simp: ins_refines_def)
    from ains_inv[OF Some[unfolded x] d b]
    have i: "tdist t'" "brk m \<le> b'" "taddrs t' = taddrs t \<union> {brk m..<b'}" by simp_all
    have "taddrs t' \<subseteq> {..<b'}" using i b by auto
    with m' i have "tree_inv m' t'" by (simp add: tree_inv_def)
    moreover have "root_addr t' = root_addr t" using Some x by (auto intro: ains_root)
    ultimately show ?thesis using Some x e m' by simp
  qed
qed

lemma add_all_refines:
  "tree_inv m t \<Longrightarrow>
   (case abuild t (map sig_of kcs) (brk m) of
      None \<Rightarrow> add_all_keywords m (Some (root_addr t)) kcs = Inl NullDeref
    | Some (t', b') \<Rightarrow>
        (\<exists>m'. add_all_keywords m (Some (root_addr t)) kcs = Inr m'
              \<and> tree_inv m' t' \<and> brk m' = b' \<and> root_addr t' = root_addr t))"
proof (induction kcs arbitrary: m t)
  case Nil
  then show ?case by simp
next
  case (Cons kc kcs)
  obtain s q where sq: "sig_of kc = (s, q)" by (cases "sig_of kc")
  show ?case
  proof (cases "ains t s q (brk m)")
    case None
    with add_keyword_refines[OF Cons.prems, of kc] sq show ?thesis by simp
  next
    case (Some x)
    obtain t1 b1 where x: "x = (t1, b1)" by (cases x)
    from add_keyword_refines[OF Cons.prems, of kc] sq Some x obtain m1 where
      m1: "keyword_dict_add_keyword m (Some (root_addr t)) kc = Inr m1" "tree_inv m1 t1"
          "brk m1 = b1" "root_addr t1 = root_addr t"
      by auto
    from Cons.IH[OF m1(2)] m1 Some x sq show ?thesis
      by (auto split: option.splits)
  qed
qed

subsection \<open>\<open>search_keyword_dict\<close> refines the search on trees\<close>

lemma first_match_rep:
  "frep m f \<Longrightarrow>
   first_match m d (f_edges f) (first_addr f) = Inr (map_option (root_addr \<circ> snd) (fmatch f d))"
proof (induction f rule: forest_induct)
  case FNil
  then show ?case by simp
next
  case (FCons e t f)
  from FCons.prems have t: "trep m t (first_addr f)" and f: "frep m f" by simp_all
  from trep_cell[OF t] obtain n where "cells m (root_addr t) = Some n" "sibling n = first_addr f"
    by blast
  then show ?case using FCons.IH[OF f] by simp
qed

lemma fmatch_rep: "fmatch f d = Some (e, c) \<Longrightarrow> frep m f \<Longrightarrow> \<exists>sib. trep m c sib"
  by (induction f rule: forest_induct) (auto split: if_splits)

lemma search_refines:
  "trep m t sib \<Longrightarrow>
   search_keyword_dict m (Some (root_addr t)) data = Inr (map_option root_addr (asearch t data))"
proof (induction data arbitrary: t sib)
  case Nil
  then show ?case by simp
next
  case (Cons d ds)
  from trep_cell[OF Cons.prems] obtain n where n: "cells m (root_addr t) = Some n"
      "child n = first_addr (subforest t)"
      "take (unat (num_children n)) (edge n) = f_edges (subforest t)" "frep m (subforest t)"
    by blast
  note fm = first_match_rep[OF n(4), of d]
  show ?case
  proof (cases "fmatch (subforest t) d")
    case None
    with n fm show ?thesis by simp
  next
    case (Some x)
    obtain e c where x: "x = (e, c)" by (cases x)
    from fmatch_rep[OF Some[unfolded x] n(4)] obtain sc where sc: "trep m c sc" by blast
    from trep_cell[OF sc] obtain cn where cn: "cells m (root_addr c) = Some cn"
        "pi cn = node_pi c" by blast
    show ?thesis
      using n fm Some x cn Cons.IH[OF sc] by simp
  qed
qed

subsection \<open>\<open>construct_keyword_dict\<close> and initialisation\<close>

lemma table_length: "unat (num_keywords st) \<le> MAX_KEYWORDS \<Longrightarrow> length (table_of st) \<le> MAX_KEYWORDS"
  by (simp add: table_of_def)

lemma construct_refines:
  assumes "kd_root st = None"
  shows "case abuild (ANode (brk (mem st)) FNil zero_pi) (table_of st) (Suc (brk (mem st))) of
           None \<Rightarrow> construct_keyword_dict st = Inl NullDeref
         | Some (t', b') \<Rightarrow>
             (\<exists>m'. construct_keyword_dict st
                      = Inr (0, st\<lparr>kd_root := Some (brk (mem st)), mem := m'\<rparr>)
                   \<and> tree_inv m' t' \<and> brk m' = b' \<and> root_addr t' = brk (mem st))"
proof -
  let ?r = "brk (mem st)"
  let ?m1 = "snd (alloc_kdn (mem st))"
  let ?t0 = "ANode ?r FNil zero_pi"
  have c: "cells ?m1 ?r = Some zero_node" and b: "brk ?m1 = Suc ?r"
    by (simp_all add: alloc_kdn_def)
  have inv: "tree_inv ?m1 ?t0"
    using new_node_rep[OF c] b by (simp add: tree_inv_def)
  from add_all_refines[OF inv, of "take (unat (num_keywords st)) (keyword_list st)"]
  show ?thesis
    using assms b
    by (auto simp: construct_keyword_dict_def table_of_def alloc_kdn_def
             split: option.splits)
qed

lemma construct_builds:
  assumes "kd_root st = None" and "unat (num_keywords st) \<le> MAX_KEYWORDS"
  shows "\<exists>st'. construct_keyword_dict st = Inr (0, st') \<and> dict_built st'
              \<and> table_of st' = table_of st"
proof -
  let ?t0 = "ANode (brk (mem st)) FNil zero_pi"
  have "maxdeg ?t0 + length (table_of st) \<le> MAX_CHILDREN - 1"
    using table_length[OF assms(2)] by (simp add: MAX_CHILDREN_def MAX_KEYWORDS_def)
  from abuild_succeeds[OF this, of "Suc (brk (mem st))"] obtain t' b' where
    a: "abuild ?t0 (table_of st) (Suc (brk (mem st))) = Some (t', b')" by blast
  from construct_refines[OF assms(1)] a obtain m' where
    m': "construct_keyword_dict st = Inr (0, st\<lparr>kd_root := Some (brk (mem st)), mem := m'\<rparr>)"
        "tree_inv m' t'" "root_addr t' = brk (mem st)"
    by auto
  have "dict_built (st\<lparr>kd_root := Some (brk (mem st)), mem := m'\<rparr>)"
    using m'(2,3) by (auto simp: dict_built_def intro!: exI[of _ t'])
  with m'(1) show ?thesis by (auto simp: table_of_def)
qed

lemma init_keywords_ok:
  assumes "num_keywords st = 0"
  shows "\<exists>st1. init_keywords st = (0, st1) \<and> kd_root st1 = kd_root st
          \<and> num_keywords st1 = 2 \<and> mem st1 = mem st"
  using assms
  by (simp add: init_keywords_def populate_keyword_identifiers_def add_tls_identifiers_def
                add_keyword_def sizeof_u16_def tls_client_string_def tls_server_string_def
                MAX_KEYWORDS_def MAX_VAL_BYTES_def Let_def)

lemma init_builds:
  assumes "kd_root st = None" and "unat (num_keywords st) \<le> MAX_KEYWORDS"
  shows "\<exists>st'. proto_identify_init_keyword_dict st = Inr (0, st') \<and> dict_built st'"
proof (cases "num_keywords st = 0")
  case True
  from init_keywords_ok[OF True] obtain st1 where
    s1: "init_keywords st = (0, st1)" "kd_root st1 = kd_root st" "num_keywords st1 = 2"
    by blast
  have "unat (num_keywords st1) \<le> MAX_KEYWORDS" using s1(3) by (simp add: MAX_KEYWORDS_def)
  from construct_builds[OF _ this] s1(2) assms(1) obtain st' where
    "construct_keyword_dict st1 = Inr (0, st')" "dict_built st'" by auto
  with True s1 assms(1) show ?thesis
    by (simp add: proto_identify_init_keyword_dict_def)
next
  case False
  from construct_builds[OF assms] obtain st' where
    "construct_keyword_dict st = Inr (0, st')" "dict_built st'" by auto
  with False assms(1) show ?thesis
    by (simp add: proto_identify_init_keyword_dict_def)
qed

lemma fmatch_addrs: "fmatch f d = Some (e, c) \<Longrightarrow> taddrs c \<subseteq> faddrs f"
  by (induction f rule: forest_induct) (auto split: if_splits)

lemma subforest_addrs: "faddrs (subforest t) \<subseteq> taddrs t"
  by (cases t) auto

lemma asearch_rep: "asearch t data = Some c \<Longrightarrow> trep m t sib \<Longrightarrow> \<exists>sc. trep m c sc"
proof (induction data arbitrary: t sib)
  case Nil
  then show ?case by simp
next
  case (Cons d ds)
  from Cons.prems(1) obtain e c0 where f: "fmatch (subforest t) d = Some (e, c0)"
    by (auto split: option.splits)
  from trep_cell[OF Cons.prems(2)] have "frep m (subforest t)" by blast
  from fmatch_rep[OF f this] obtain s0 where s0: "trep m c0 s0" by blast
  from Cons.prems(1) f have "c = c0 \<or> asearch c0 ds = Some c"
    by (auto split: if_splits)
  then show ?case using s0 Cons.IH by blast
qed

lemma identify_by_tree:
  assumes "kd_root st = Some (root_addr t)" and "trep (mem st) t sib"
  shows "identify_tcp_protocol st data
           = Inr (case asearch t data of None \<Rightarrow> 0 | Some c \<Rightarrow> app (node_pi c), st)"
proof (cases "asearch t data")
  case None
  with assms search_refines[OF assms(2), of data] show ?thesis
    by (simp add: identify_tcp_protocol_def)
next
  case (Some c)
  from asearch_rep[OF Some assms(2)] obtain sc where "trep (mem st) c sc" by blast
  from trep_cell[OF this] obtain n where "cells (mem st) (root_addr c) = Some n"
    "pi n = node_pi c" by blast
  moreover from Some have "data \<noteq> []" by auto
  ultimately show ?thesis
    using Some assms(1) search_refines[OF assms(2), of data]
    by (simp add: identify_tcp_protocol_def)
qed

lemma identify_lazy_init:
  assumes "kd_root st = None" and "data \<noteq> []"
    and "proto_identify_init_keyword_dict st = Inr (r, st')"
    and "kd_root st' \<noteq> None"
  shows "identify_tcp_protocol st data = identify_tcp_protocol st' data"
  using assms by (auto simp: identify_tcp_protocol_def)

lemma identify_total:
  assumes "dict_ready st"
  shows "\<exists>p st'. identify_tcp_protocol st data = Inr (p, st') \<and> dict_ready st'"
proof (cases "data = []")
  case True
  with assms show ?thesis by (simp add: identify_tcp_protocol_def)
next
  case False
  have built: "\<exists>p. identify_tcp_protocol s data = Inr (p, s)" if "dict_built s" for s
  proof -
    from that obtain t where "kd_root s = Some (root_addr t)" "trep (mem s) t None"
      by (auto simp: dict_built_def tree_inv_def)
    from identify_by_tree[OF this] show ?thesis by blast
  qed
  show ?thesis
  proof (cases "kd_root st = None")
    case True
    with assms have "unat (num_keywords st) \<le> MAX_KEYWORDS"
      by (auto simp: dict_ready_def dict_built_def)
    from init_builds[OF True this] obtain st' where
      i: "proto_identify_init_keyword_dict st = Inr (0, st')" and b: "dict_built st'" by blast
    from b have "kd_root st' \<noteq> None" by (auto simp: dict_built_def)
    from identify_lazy_init[OF True False i this] built[OF b] b show ?thesis
      by (auto simp: dict_ready_def)
  next
    case False
    with assms have b: "dict_built st" by (auto simp: dict_ready_def)
    from built[OF b] b show ?thesis by (auto simp: dict_ready_def)
  qed
qed

subsection \<open>Paths\<close>

lemma path_end_refines:
  "trep m t sib \<Longrightarrow> path_end m (Some (root_addr t)) s = map_option root_addr (alookup t s)"
proof (induction s arbitrary: t sib)
  case Nil
  then show ?case by simp
next
  case (Cons v vs)
  from trep_cell[OF Cons.prems] obtain n where n: "cells m (root_addr t) = Some n"
      "child n = first_addr (subforest t)"
      "take (unat (num_children n)) (edge n) = f_edges (subforest t)" "frep m (subforest t)"
    by blast
  show ?case
  proof (cases "subforest t")
    case FNil
    with n show ?thesis by simp
  next
    case (FCons e t1 f1)
    note sc = scan_children_rep[OF n(4)[unfolded FCons], of v]
    show ?thesis
    proof (cases "fget (FCons e t1 f1) v")
      case None
      with n sc FCons show ?thesis by simp
    next
      case (Some tk)
      from fget_rep[OF Some n(4)[unfolded FCons]] have "trep m tk (fsib (FCons e t1 f1) v)" .
      from Cons.IH[OF this] n sc FCons Some show ?thesis by simp
    qed
  qed
qed

lemma fget_fupd:
  "fget f v = Some tk \<Longrightarrow> fget (fupd f v tk') w = (if w = v then Some tk' else fget f w)"
  by (induction f rule: forest_induct) (auto split: if_splits)

lemma fget_fsnoc:
  "fget (fsnoc f v t0) w =
     (case fget f w of Some x \<Rightarrow> Some x | None \<Rightarrow> if w = v then Some t0 else None)"
  by (induction f rule: forest_induct) auto

lemma fget_same:
  "fdist f \<Longrightarrow> fget f v = Some t1 \<Longrightarrow> fget f w = Some t2 \<Longrightarrow>
   a \<in> taddrs t1 \<Longrightarrow> a \<in> taddrs t2 \<Longrightarrow> v = w"
proof (induction f rule: forest_induct)
  case FNil
  then show ?case by simp
next
  case (FCons e t f)
  show ?case
  proof (cases "v = e")
    case True
    show ?thesis
    proof (cases "w = e")
      case True
      with \<open>v = e\<close> show ?thesis by simp
    next
      case False
      with FCons.prems True have "t1 = t" "fget f w = Some t2" by simp_all
      with fget_addrs[of f w t2] FCons.prems show ?thesis by auto
    qed
  next
    case False
    show ?thesis
    proof (cases "w = e")
      case True
      with FCons.prems False have "t2 = t" "fget f v = Some t1" by simp_all
      with fget_addrs[of f v t1] FCons.prems show ?thesis by auto
    next
      case w: False
      with False FCons.prems FCons.IH show ?thesis by simp
    qed
  qed
qed

lemma alookup_addrs: "alookup t s = Some ts \<Longrightarrow> taddrs ts \<subseteq> taddrs t"
proof (induction s arbitrary: t)
  case Nil
  then show ?case by simp
next
  case (Cons v vs)
  from Cons.prems obtain tk where k: "fget (subforest t) v = Some tk" "alookup tk vs = Some ts"
    by (auto split: option.splits)
  from Cons.IH[OF k(2)] fget_addrs[OF k(1)] subforest_addrs[of t] show ?case by blast
qed

lemma alookup_dist: "alookup t s = Some ts \<Longrightarrow> tdist t \<Longrightarrow> tdist ts"
proof (induction s arbitrary: t)
  case Nil
  then show ?case by simp
next
  case (Cons v vs)
  from Cons.prems obtain tk where k: "fget (subforest t) v = Some tk" "alookup tk vs = Some ts"
    by (auto split: option.splits)
  from Cons.prems(2) have "fdist (subforest t)" by (cases t) simp
  from Cons.IH[OF k(2) fget_dist[OF k(1) this]] show ?case .
qed

lemma root_not_below: "tdist t \<Longrightarrow> root_addr t \<notin> faddrs (subforest t)"
  by (cases t) simp

lemma alookup_inj:
  "tdist t \<Longrightarrow> alookup t s1 = Some c1 \<Longrightarrow> alookup t s2 = Some c2 \<Longrightarrow>
   root_addr c1 = root_addr c2 \<Longrightarrow> s1 = s2"
proof (induction s1 arbitrary: t s2)
  case Nil
  show ?case
  proof (cases s2)
    case Nil
    then show ?thesis by simp
  next
    case (Cons w ws)
    with Nil.prems obtain tk where k: "fget (subforest t) w = Some tk" "alookup tk ws = Some c2"
      by (auto split: option.splits)
    from alookup_addrs[OF k(2)] fget_addrs[OF k(1)] root_in_taddrs[of c2]
    have "root_addr c2 \<in> faddrs (subforest t)"
      by blast
    with Nil.prems root_not_below[of t] show ?thesis by simp
  qed
next
  case (Cons v vs)
  from Cons.prems(2) obtain t1 where k1: "fget (subforest t) v = Some t1" "alookup t1 vs = Some c1"
    by (auto split: option.splits)
  have in1: "root_addr c1 \<in> taddrs t1"
    using alookup_addrs[OF k1(2)] root_in_taddrs[of c1] by blast
  show ?case
  proof (cases s2)
    case Nil
    with Cons.prems have "c2 = t" by simp
    with in1 fget_addrs[OF k1(1)] Cons.prems(4) root_not_below[OF Cons.prems(1)]
    show ?thesis by auto
  next
    case (Cons w ws)
    with Cons.prems(3) obtain t2 where
      k2: "fget (subforest t) w = Some t2" "alookup t2 ws = Some c2"
      by (auto split: option.splits)
    have in2: "root_addr c2 \<in> taddrs t2"
      using alookup_addrs[OF k2(2)] root_in_taddrs[of c2] by blast
    from Cons.prems(1) have fd: "fdist (subforest t)" by (cases t) simp
    have vw: "v = w"
      using fget_same[OF fd k1(1) k2(1) in1] in2 Cons.prems(4) by simp
    with k1 k2 have "t2 = t1" by simp
    from Cons.IH[OF fget_dist[OF k1(1) fd] k1(2) k2(2)[unfolded this] Cons.prems(4)] vw Cons
    show ?thesis by simp
  qed
qed

lemma fmatch_edge: "fmatch f d = Some (e, c) \<Longrightarrow> edge_matches e d"
  by (induction f rule: forest_induct) (auto split: if_splits)

lemma fmatch_fget: "fmatch f d = Some (e, c) \<Longrightarrow> fget f e = Some c"
proof (induction f rule: forest_induct)
  case FNil
  then show ?case by simp
next
  case (FCons e0 t0 f)
  show ?case
  proof (cases "edge_matches e0 d")
    case True
    with FCons.prems show ?thesis by simp
  next
    case False
    with FCons.prems have m: "fmatch f d = Some (e, c)" by simp
    from fmatch_edge[OF m] False have "e \<noteq> e0" by auto
    with FCons.IH[OF m] show ?thesis by simp
  qed
qed

lemma asearch_path:
  "asearch t data = Some c \<Longrightarrow>
   \<exists>s. alookup t s = Some c \<and> s \<noteq> [] \<and> length s \<le> length data
       \<and> list_all2 edge_matches s (take (length s) data) \<and> app (node_pi c) \<noteq> 0"
proof (induction data arbitrary: t)
  case Nil
  then show ?case by simp
next
  case (Cons d ds)
  from Cons.prems obtain e c0 where f: "fmatch (subforest t) d = Some (e, c0)"
    by (auto split: option.splits)
  note g = fmatch_fget[OF f] and em = fmatch_edge[OF f]
  show ?case
  proof (cases "app (node_pi c0) \<noteq> 0")
    case True
    with Cons.prems f have "c = c0" by simp
    with g em True show ?thesis
      by (intro exI[of _ "[e]"]) simp
  next
    case False
    with Cons.prems f have r: "asearch c0 ds = Some c" by (auto split: if_splits)
    from Cons.IH[OF r] obtain s where
      s: "alookup c0 s = Some c" "length s \<le> length ds"
         "list_all2 edge_matches s (take (length s) ds)" "app (node_pi c) \<noteq> 0"
      by blast
    then show ?thesis using g em
      by (intro exI[of _ "e # s"]) simp
  qed
qed

lemma edge_never_matches:
  assumes "0x80 \<le> x" and "x \<le> 0xFF"
  shows "\<not> edge_matches x d"
proof -
  have "sint d < 128" using sint_lt[of d] by simp
  moreover have "128 \<le> uint x" using assms(1) by (simp add: word_le_def)
  moreover have "x \<noteq> WILDCARD" using assms(2) by (auto simp: WILDCARD_def)
  ultimately show ?thesis by (simp add: edge_matches_def)
qed

subsection \<open>What insertion does to paths, inferences and edges\<close>

lemma ains_lookup_self:
  "ains t s q b = Some (t', b') \<Longrightarrow> \<exists>ts. alookup t' s = Some ts \<and> node_pi ts = q"
proof (induction s arbitrary: t t' b)
  case Nil
  then show ?case by auto
next
  case (Cons v vs)
  show ?case
  proof (cases "fget (subforest t) v")
    case None
    with Cons.prems obtain t0 where
      i: "ains (ANode b FNil zero_pi) vs q (Suc b) = Some (t0, b')"
      and t': "t' = ANode (root_addr t) (fsnoc (subforest t) v t0) (node_pi t)"
      by (auto split: if_splits option.splits prod.splits)
    from Cons.IH[OF i] None show ?thesis unfolding t' by (simp add: fget_fsnoc)
  next
    case (Some tk)
    with Cons.prems obtain tk' where
      i: "ains tk vs q b = Some (tk', b')"
      and t': "t' = ANode (root_addr t) (fupd (subforest t) v tk') (node_pi t)"
      by (auto split: option.splits prod.splits)
    from Cons.IH[OF i] Some show ?thesis unfolding t' by (simp add: fget_fupd)
  qed
qed

lemma ains_lookup_keep:
  "ains t s0 q b = Some (t', b') \<Longrightarrow> alookup t s = Some ts \<Longrightarrow>
   \<exists>ts'. alookup t' s = Some ts' \<and> root_addr ts' = root_addr ts"
proof (induction s0 arbitrary: t t' b s ts)
  case Nil
  then show ?case by (cases s) auto
next
  case (Cons v0 vs0)
  show ?case
  proof (cases s)
    case Nil
    with Cons.prems ains_root[OF Cons.prems(1)] show ?thesis by simp
  next
    case s: (Cons w ws)
    with Cons.prems(2) obtain tw where
      w: "fget (subforest t) w = Some tw" "alookup tw ws = Some ts"
      by (auto split: option.splits)
    show ?thesis
    proof (cases "fget (subforest t) v0")
      case None
      with Cons.prems obtain t0 where
        t': "t' = ANode (root_addr t) (fsnoc (subforest t) v0 t0) (node_pi t)"
        by (auto split: if_splits option.splits prod.splits)
      show ?thesis unfolding t' s using w by (simp add: fget_fsnoc)
    next
      case (Some tk)
      with Cons.prems obtain tk' where
        i: "ains tk vs0 q b = Some (tk', b')"
        and t': "t' = ANode (root_addr t) (fupd (subforest t) v0 tk') (node_pi t)"
        by (auto split: option.splits prod.splits)
      show ?thesis
      proof (cases "w = v0")
        case True
        with w Some have "tw = tk" by simp
        from Cons.IH[OF i w(2)[unfolded this]] True Some show ?thesis
          unfolding t' s by (simp add: fget_fupd)
      next
        case False
        with w Some show ?thesis unfolding t' s by (simp add: fget_fupd)
      qed
    qed
  qed
qed

lemma tsound_sub:
  "tsound P t \<Longrightarrow> fget (subforest t) v = Some tk \<Longrightarrow> tsound {(s, p). (v # s, p) \<in> P} tk"
  by (auto simp: tsound_def)

lemma tsound_new: "tsound P (ANode b FNil zero_pi)"
proof -
  have "alookup (ANode b FNil zero_pi) s = Some ts \<Longrightarrow> app (node_pi ts) = 0" for s ts
    by (cases s) (auto simp: zero_pi_def)
  then show ?thesis by (auto simp: tsound_def)
qed

lemma ains_sound:
  "tsound P t \<Longrightarrow> ains t s0 q b = Some (t', b') \<Longrightarrow> tsound (insert (s0, q) P) t'"
proof (induction s0 arbitrary: t t' b P)
  case Nil
  from Nil.prems(2) have t': "t' = ANode (root_addr t) (subforest t) q" by simp
  show ?case unfolding tsound_def
  proof (intro allI impI)
    fix s ts assume a: "alookup t' s = Some ts" "app (node_pi ts) \<noteq> 0"
    show "(s, node_pi ts) \<in> insert ([], q) P"
    proof (cases s)
      case Nil
      with a t' show ?thesis by auto
    next
      case (Cons w ws)
      with a t' have "alookup t s = Some ts" by simp
      with Nil.prems(1) a(2) show ?thesis by (simp add: tsound_def)
    qed
  qed
next
  case (Cons v0 vs0)
  have root_case: "(([]::16 word list), node_pi t) \<in> P" if "app (node_pi t) \<noteq> 0"
    using Cons.prems(1) that by (simp add: tsound_def)
  show ?case
  proof (cases "fget (subforest t) v0")
    case None
    with Cons.prems obtain t0 where
      i: "ains (ANode b FNil zero_pi) vs0 q (Suc b) = Some (t0, b')"
      and t': "t' = ANode (root_addr t) (fsnoc (subforest t) v0 t0) (node_pi t)"
      by (auto split: if_splits option.splits prod.splits)
    from Cons.IH[OF tsound_new i] have s0: "tsound {(vs0, q)} t0" by simp
    show ?thesis unfolding tsound_def
    proof (intro allI impI)
      fix s ts assume a: "alookup t' s = Some ts" "app (node_pi ts) \<noteq> 0"
      show "(s, node_pi ts) \<in> insert (v0 # vs0, q) P"
      proof (cases s)
        case Nil
        with a t' root_case show ?thesis by auto
      next
        case s: (Cons w ws)
        show ?thesis
        proof (cases "fget (subforest t) w")
          case (Some tw)
          with a t' s have "alookup t s = Some ts" by (simp add: fget_fsnoc)
          with Cons.prems(1) a(2) show ?thesis by (simp add: tsound_def)
        next
          case None
          with a t' s have "w = v0" "alookup t0 ws = Some ts"
            by (auto simp: fget_fsnoc split: if_splits)
          with s0 a(2) s show ?thesis by (auto simp: tsound_def)
        qed
      qed
    qed
  next
    case (Some tk)
    with Cons.prems obtain tk' where
      i: "ains tk vs0 q b = Some (tk', b')"
      and t': "t' = ANode (root_addr t) (fupd (subforest t) v0 tk') (node_pi t)"
      by (auto split: option.splits prod.splits)
    from Cons.IH[OF tsound_sub[OF Cons.prems(1) Some] i]
    have sk: "tsound (insert (vs0, q) {(s, p). (v0 # s, p) \<in> P}) tk'" .
    show ?thesis unfolding tsound_def
    proof (intro allI impI)
      fix s ts assume a: "alookup t' s = Some ts" "app (node_pi ts) \<noteq> 0"
      show "(s, node_pi ts) \<in> insert (v0 # vs0, q) P"
      proof (cases s)
        case Nil
        with a t' root_case show ?thesis by auto
      next
        case s: (Cons w ws)
        show ?thesis
        proof (cases "w = v0")
          case True
          with a t' s Some have "alookup tk' ws = Some ts" by (simp add: fget_fupd)
          with sk a(2) s True show ?thesis by (auto simp: tsound_def)
        next
          case False
          with a t' s Some have "alookup t s = Some ts" by (simp add: fget_fupd)
          with Cons.prems(1) a(2) show ?thesis by (simp add: tsound_def)
        qed
      qed
    qed
  qed
qed

lemma fde_fupd: "fde f \<Longrightarrow> tde tk' \<Longrightarrow> fde (fupd f v tk')"
  by (induction f rule: forest_induct) auto

lemma fde_fsnoc: "fde f \<Longrightarrow> tde t0 \<Longrightarrow> fde (fsnoc f v t0)"
  by (induction f rule: forest_induct) auto

lemma fget_tde: "fget f v = Some tk \<Longrightarrow> fde f \<Longrightarrow> tde tk"
  by (induction f rule: forest_induct) (auto split: if_splits)

lemma ains_tde: "tde t \<Longrightarrow> ains t s q b = Some (t', b') \<Longrightarrow> tde t'"
proof (induction s arbitrary: t t' b)
  case Nil
  then show ?case by (cases t) auto
next
  case (Cons v vs)
  obtain a f p where t: "t = ANode a f p" by (cases t)
  show ?case
  proof (cases "fget f v")
    case None
    with Cons.prems t obtain t0 where
      i: "ains (ANode b FNil zero_pi) vs q (Suc b) = Some (t0, b')"
      and t': "t' = ANode a (fsnoc f v t0) p"
      by (auto split: if_splits option.splits prod.splits)
    have "tde t0" by (rule Cons.IH[OF _ i]) simp
    with Cons.prems(1) t None show ?thesis unfolding t'
      by (simp add: fde_fsnoc fget_None_iff)
  next
    case (Some tk)
    with Cons.prems t obtain tk' where
      i: "ains tk vs q b = Some (tk', b')"
      and t': "t' = ANode a (fupd f v tk') p"
      by (auto split: option.splits prod.splits)
    have "tde tk" using Some Cons.prems(1) t by (auto intro: fget_tde)
    from Cons.IH[OF this i] Cons.prems(1) t show ?thesis unfolding t'
      by (simp add: fde_fupd)
  qed
qed

lemma ains_count: "ains t s q b = Some (t', b') \<Longrightarrow> b' = b + (length s - pathlen t s)"
proof (induction s arbitrary: t t' b)
  case Nil
  then show ?case by simp
next
  case (Cons v vs)
  show ?case
  proof (cases "fget (subforest t) v")
    case None
    with Cons.prems obtain t0 where
      i: "ains (ANode b FNil zero_pi) vs q (Suc b) = Some (t0, b')"
      by (auto split: if_splits option.splits prod.splits)
    have "pathlen (ANode b FNil zero_pi) vs = 0" by (cases vs) simp_all
    with Cons.IH[OF i] None show ?thesis by simp
  next
    case (Some tk)
    with Cons.prems obtain tk' where
      i: "ains tk vs q b = Some (tk', b')"
      by (auto split: option.splits prod.splits)
    from Cons.IH[OF i] Some show ?thesis by simp
  qed
qed

lemma pathlen_le: "pathlen t s \<le> length s"
  by (induction s arbitrary: t) (auto split: option.splits)

lemma pathlen_first:
  "ains (ANode r FNil p0) s1 q b = Some (t1, b1) \<Longrightarrow> pathlen t1 s2 = lcp s1 s2"
proof (induction s1 arbitrary: r p0 b t1 s2)
  case Nil
  then show ?case by (cases s2) auto
next
  case (Cons v vs)
  from Cons.prems obtain t0 where
    i: "ains (ANode b FNil zero_pi) vs q (Suc b) = Some (t0, b1)"
    and t1: "t1 = ANode r (FCons v t0 FNil) p0"
    by (auto simp: MAX_CHILDREN_def split: option.splits prod.splits)
  show ?case
  proof (cases s2)
    case Nil
    then show ?thesis by simp
  next
    case (Cons w ws)
    with Cons.IH[OF i, of ws] t1 show ?thesis by simp
  qed
qed

lemma chain_shared:
  "ains (ANode r FNil p0) s1 q1 b = Some (t1, b1) \<Longrightarrow> ains t1 s2 q2 b1 = Some (t2, b2) \<Longrightarrow>
   j < lcp s1 s2 \<Longrightarrow>
   \<exists>tj. alookup t2 (take j s1) = Some tj \<and> length (f_edges (subforest tj)) = 1"
proof (induction s1 arbitrary: r p0 b t1 s2 t2 j)
  case Nil
  then show ?case by simp
next
  case (Cons v vs)
  from Cons.prems(3) obtain ws where s2: "s2 = v # ws" and l: "j < Suc (lcp vs ws)"
    by (cases s2) (auto split: if_splits)
  from Cons.prems(1) obtain t0 where
    i: "ains (ANode b FNil zero_pi) vs q1 (Suc b) = Some (t0, b1)"
    and t1: "t1 = ANode r (FCons v t0 FNil) p0"
    by (auto simp: MAX_CHILDREN_def split: option.splits prod.splits)
  from Cons.prems(2) s2 t1 obtain t0' where
    i2: "ains t0 ws q2 b1 = Some (t0', b2)"
    and t2: "t2 = ANode r (FCons v t0' FNil) p0"
    by (auto split: option.splits prod.splits)
  show ?case
  proof (cases j)
    case 0
    then show ?thesis using t2 by simp
  next
    case (Suc j')
    with l have "j' < lcp vs ws" by simp
    from Cons.IH[OF i i2 this] Suc t2 show ?thesis by simp
  qed
qed

subsection \<open>The built dictionary\<close>

lemma abuild_props:
  "abuild t T b = Some (t', b') \<Longrightarrow> tdist t \<Longrightarrow> taddrs t \<subseteq> {..<b} \<Longrightarrow>
   tdist t' \<and> b \<le> b' \<and> taddrs t' = taddrs t \<union> {b..<b'} \<and> root_addr t' = root_addr t"
proof (induction T arbitrary: t b)
  case Nil
  then show ?case by simp
next
  case (Cons x T)
  obtain s q where x: "x = (s, q)" by (cases x)
  from Cons.prems(1) x obtain t1 b1 where
    i: "ains t s q b = Some (t1, b1)" and r: "abuild t1 T b1 = Some (t', b')"
    by (auto split: option.splits)
  from ains_inv[OF i Cons.prems(2,3)]
  have 1: "tdist t1" "b \<le> b1" "taddrs t1 = taddrs t \<union> {b..<b1}" by simp_all
  have "taddrs t1 \<subseteq> {..<b1}" using 1 Cons.prems(3) by auto
  from Cons.IH[OF r 1(1) this]
  have 2: "tdist t'" "b1 \<le> b'" "taddrs t' = taddrs t1 \<union> {b1..<b'}" "root_addr t' = root_addr t1"
    by simp_all
  have "taddrs t' = taddrs t \<union> {b..<b'}" using 1 2 by auto
  with 1 2 ains_root[OF i] show ?case by simp
qed

lemma abuild_tde: "tde t \<Longrightarrow> abuild t T b = Some (t', b') \<Longrightarrow> tde t'"
proof (induction T arbitrary: t b)
  case Nil
  then show ?case by simp
next
  case (Cons x T)
  obtain s q where x: "x = (s, q)" by (cases x)
  from Cons.prems(2) x obtain t1 b1 where
    i: "ains t s q b = Some (t1, b1)" and r: "abuild t1 T b1 = Some (t', b')"
    by (auto split: option.splits)
  from Cons.IH[OF ains_tde[OF Cons.prems(1) i] r] show ?case .
qed

lemma abuild_sound:
  "tsound P t \<Longrightarrow> abuild t T b = Some (t', b') \<Longrightarrow> tsound (P \<union> set T) t'"
proof (induction T arbitrary: t b P)
  case Nil
  then show ?case by simp
next
  case (Cons x T)
  obtain s q where x: "x = (s, q)" by (cases x)
  from Cons.prems(2) x obtain t1 b1 where
    i: "ains t s q b = Some (t1, b1)" and r: "abuild t1 T b1 = Some (t', b')"
    by (auto split: option.splits)
  from Cons.IH[OF ains_sound[OF Cons.prems(1) i] r] x show ?case by simp
qed

lemma abuild_lookup_keep:
  "abuild t T b = Some (t', b') \<Longrightarrow> alookup t s = Some ts \<Longrightarrow>
   \<exists>ts'. alookup t' s = Some ts' \<and> root_addr ts' = root_addr ts"
proof (induction T arbitrary: t b ts)
  case Nil
  then show ?case by simp
next
  case (Cons x T)
  obtain s0 q where x: "x = (s0, q)" by (cases x)
  from Cons.prems(1) x obtain t1 b1 where
    i: "ains t s0 q b = Some (t1, b1)" and r: "abuild t1 T b1 = Some (t', b')"
    by (auto split: option.splits)
  from ains_lookup_keep[OF i Cons.prems(2)] obtain t1s where
    "alookup t1 s = Some t1s" "root_addr t1s = root_addr ts" by blast
  with Cons.IH[OF r, of t1s] show ?case by auto
qed

lemma abuild_lookup:
  "abuild t T b = Some (t', b') \<Longrightarrow> (s, q) \<in> set T \<Longrightarrow> \<exists>ts. alookup t' s = Some ts"
proof (induction T arbitrary: t b)
  case Nil
  then show ?case by simp
next
  case (Cons x T)
  obtain s0 q0 where x: "x = (s0, q0)" by (cases x)
  from Cons.prems(1) x obtain t1 b1 where
    i: "ains t s0 q0 b = Some (t1, b1)" and r: "abuild t1 T b1 = Some (t', b')"
    by (auto split: option.splits)
  show ?case
  proof (cases "(s, q) \<in> set T")
    case True
    from Cons.IH[OF r True] show ?thesis .
  next
    case False
    with Cons.prems(2) x have "s = s0" by simp
    with ains_lookup_self[OF i] obtain ts where "alookup t1 s = Some ts" by blast
    from abuild_lookup_keep[OF r this] show ?thesis by blast
  qed
qed

lemma rep_distinct:
  shows "trep m t sib \<Longrightarrow> tde t \<Longrightarrow> a \<in> taddrs t \<Longrightarrow>
         \<exists>n. cells m a = Some n \<and> distinct (take (unat (num_children n)) (edge n))"
    and "frep m f \<Longrightarrow> fde f \<Longrightarrow> a \<in> faddrs f \<Longrightarrow>
         \<exists>n. cells m a = Some n \<and> distinct (take (unat (num_children n)) (edge n))"
  by (induction t and f arbitrary: sib) (auto split: option.splits)

lemma construct_tree:
  assumes "kd_root st = None" and "construct_keyword_dict st = Inr (r, st')"
  shows "r = 0 \<and> (\<exists>t. built_tree st st' t)"
proof (cases "abuild (ANode (brk (mem st)) FNil zero_pi) (table_of st) (Suc (brk (mem st)))")
  case None
  with construct_refines[OF assms(1)] assms(2) show ?thesis by simp
next
  case (Some x)
  obtain t b' where x: "x = (t, b')" by (cases x)
  from construct_refines[OF assms(1)] Some x assms(2) obtain m' where
    m': "st' = st\<lparr>kd_root := Some (brk (mem st)), mem := m'\<rparr>" "r = 0"
        "tree_inv m' t" "brk m' = b'" "root_addr t = brk (mem st)"
    by auto
  have "built_tree st st' t"
    using m' Some x by (simp add: built_tree_def)
  with m'(2) show ?thesis by blast
qed

lemma built_tree_facts:
  assumes "built_tree st st' t"
  shows "kd_root st' = Some (root_addr t)" and "trep (mem st') t None" and "tdist t"
    and "tde t" and "tsound (set (table_of st)) t"
    and "taddrs t = {brk (mem st)..<brk (mem st')}"
    and "table_of st' = table_of st"
proof -
  let ?b = "brk (mem st)"
  let ?t0 = "ANode ?b FNil zero_pi"
  from assms have e: "kd_root st' = Some ?b" "keyword_list st' = keyword_list st"
      "num_keywords st' = num_keywords st"
    and r: "root_addr t = ?b" and inv: "tree_inv (mem st') t"
    and a: "abuild ?t0 (table_of st) (Suc ?b) = Some (t, brk (mem st'))"
    by (simp_all add: built_tree_def)
  show "kd_root st' = Some (root_addr t)" using e r by simp
  from inv show "trep (mem st') t None" "tdist t" by (simp_all add: tree_inv_def)
  show "tde t" by (rule abuild_tde[OF _ a]) simp
  from abuild_sound[OF tsound_new[of "{}"] a] show "tsound (set (table_of st)) t" by simp
  have "tdist ?t0" "taddrs ?t0 \<subseteq> {..<Suc ?b}" by simp_all
  from abuild_props[OF a this] have le: "Suc ?b \<le> brk (mem st')"
    and ta: "taddrs t = taddrs ?t0 \<union> {Suc ?b..<brk (mem st')}" by blast+
  have "insert ?b {Suc ?b..<brk (mem st')} = {?b..<brk (mem st')}"
    using le by (simp add: atLeastLessThan_def) (auto simp: set_eq_iff)
  then show "taddrs t = {?b..<brk (mem st')}" using ta by simp
  show "table_of st' = table_of st" using e by (simp add: table_of_def)
qed

lemma alookup_rep: "alookup t s = Some ts \<Longrightarrow> trep m t sib \<Longrightarrow> \<exists>sib'. trep m ts sib'"
proof (induction s arbitrary: t sib)
  case Nil
  then show ?case by auto
next
  case (Cons v vs)
  from Cons.prems(1) obtain tk where k: "fget (subforest t) v = Some tk" "alookup tk vs = Some ts"
    by (auto split: option.splits)
  from trep_cell[OF Cons.prems(2)] have "frep m (subforest t)" by blast
  from Cons.IH[OF k(2) fget_rep[OF k(1) this]] show ?case .
qed

lemma lcp_le: "lcp xs ys \<le> length ys"
  by (induction xs ys rule: lcp.induct) auto

lemma lcp_take: "j \<le> lcp xs ys \<Longrightarrow> take j xs = take j ys"
proof (induction xs ys arbitrary: j rule: lcp.induct)
  case (1 x xs y ys)
  then show ?case by (cases j) (auto split: if_splits)
qed auto

lemma pathlen_new [simp]: "pathlen (ANode b FNil p) s = 0"
  by (cases s) simp_all

lemma list_all2_partner: "list_all2 P xs ys \<Longrightarrow> x \<in> set xs \<Longrightarrow> \<exists>y. P x y"
  by (induction rule: list_all2_induct) auto

lemma built_distinct_edges:
  assumes "built_tree st st' t" and "brk (mem st) \<le> a" and "a < brk (mem st')"
  shows "\<exists>n. cells (mem st') a = Some n \<and> distinct (take (unat (num_children n)) (edge n))"
proof -
  note f = built_tree_facts[OF assms(1)]
  have "a \<in> taddrs t" unfolding f(6) using assms(2,3) by simp
  from rep_distinct(1)[OF f(2) f(4) this] show ?thesis .
qed

lemma built_two_signatures:
  assumes bt: "built_tree st st' t" and tab: "table_of st = [(s1, q1), (s2, q2)]"
  shows "brk (mem st') = brk (mem st) + (1 + length s1 + length s2 - lcp s1 s2)"
    and "j < lcp s1 s2 \<Longrightarrow>
         \<exists>a n. path_end (mem st') (kd_root st') (take j s1) = Some a
              \<and> path_end (mem st') (kd_root st') (take j s2) = Some a
              \<and> cells (mem st') a = Some n \<and> num_children n = 1"
proof -
  let ?b = "brk (mem st)"
  let ?t0 = "ANode ?b FNil zero_pi"
  note f = built_tree_facts[OF bt]
  from bt tab have "abuild ?t0 [(s1, q1), (s2, q2)] (Suc ?b) = Some (t, brk (mem st'))"
    by (simp add: built_tree_def)
  then obtain t1 b1 where
    i1: "ains ?t0 s1 q1 (Suc ?b) = Some (t1, b1)"
    and i2: "ains t1 s2 q2 b1 = Some (t, brk (mem st'))"
    by (auto split: option.splits)
  from ains_count[OF i1] have b1: "b1 = Suc ?b + length s1" by simp
  from ains_count[OF i2] pathlen_first[OF i1, of s2]
  have "brk (mem st') = b1 + (length s2 - lcp s1 s2)" by simp
  with b1 lcp_le[of s1 s2]
  show "brk (mem st') = ?b + (1 + length s1 + length s2 - lcp s1 s2)" by simp
  assume j: "j < lcp s1 s2"
  from chain_shared[OF i1 i2 j] obtain tj where
    tj: "alookup t (take j s1) = Some tj" "length (f_edges (subforest tj)) = 1" by blast
  from alookup_rep[OF tj(1) f(2)] obtain sj where "trep (mem st') tj sj" by blast
  from trep_cell[OF this] tj(2) obtain n where
    n: "cells (mem st') (root_addr tj) = Some n" "unat (num_children n) = 1" by auto
  from n(2) have n1: "num_children n = 1" by (metis unat_1 unsigned_word_eqI)
  have p: "path_end (mem st') (kd_root st') (take j s1) = Some (root_addr tj)"
    unfolding f(1) using path_end_refines[OF f(2), of "take j s1"] tj(1) by simp
  have "take j s1 = take j s2" using j by (intro lcp_take) simp
  with p n(1) n1
  show "\<exists>a n. path_end (mem st') (kd_root st') (take j s1) = Some a
              \<and> path_end (mem st') (kd_root st') (take j s2) = Some a
              \<and> cells (mem st') a = Some n \<and> num_children n = 1" by simp
qed

lemma built_never_returns:
  assumes bt: "built_tree st st' t" and "(s, q) \<in> set (table_of st)"
    and "x \<in> set s" and "0x80 \<le> x" and "x \<le> 0xFF"
  shows "\<exists>a. path_end (mem st') (kd_root st') s = Some a
            \<and> (\<forall>data. search_keyword_dict (mem st') (kd_root st') data \<noteq> Inr (Some a))"
proof -
  note f = built_tree_facts[OF bt]
  from bt have "abuild (ANode (brk (mem st)) FNil zero_pi) (table_of st) (Suc (brk (mem st)))
                  = Some (t, brk (mem st'))" by (simp add: built_tree_def)
  from abuild_lookup[OF this assms(2)] obtain ts where ts: "alookup t s = Some ts" by blast
  have p: "path_end (mem st') (kd_root st') s = Some (root_addr ts)"
    unfolding f(1) using path_end_refines[OF f(2), of s] ts by simp
  have "search_keyword_dict (mem st') (kd_root st') data \<noteq> Inr (Some (root_addr ts))" for data
  proof
    assume "search_keyword_dict (mem st') (kd_root st') data = Inr (Some (root_addr ts))"
    with search_refines[OF f(2), of data] f(1) obtain c where
      c: "asearch t data = Some c" "root_addr c = root_addr ts" by auto
    from asearch_path[OF c(1)] obtain s' where
      s': "alookup t s' = Some c" "list_all2 edge_matches s' (take (length s') data)" by blast
    from alookup_inj[OF f(3) ts s'(1)] c(2) have "s = s'" by simp
    with s'(2) list_all2_partner[OF _ assms(3)] obtain d where "edge_matches x d" by blast
    with edge_never_matches[OF assms(4,5)] show False by blast
  qed
  with p show ?thesis by blast
qed

lemma search_append:
  "search_keyword_dict m root b = Inr (Some a) \<Longrightarrow>
   search_keyword_dict m root (b @ s) = Inr (Some a)"
proof (induction b arbitrary: root)
  case Nil
  then show ?case by simp
next
  case (Cons d ds)
  show ?case
  proof (cases root)
    case None
    with Cons.prems show ?thesis by simp
  next
    case (Some r)
    with Cons.prems Cons.IH show ?thesis
      by (auto split: option.splits sum.splits if_splits)
  qed
qed

subsection \<open>The reference catalog and its tree\<close>

lemma client_only_facts:
  "kd_root client_only = None" "mem client_only = mem initial_state"
  "unat (num_keywords client_only) = 1"
  "table_of client_only = [(tls_client_string, \<lparr>dir = DIR_CLIENT, app = 443\<rparr>)]"
proof -
  let ?p = "\<lparr>dir = DIR_CLIENT, app = 443\<rparr>"
  have z: "unat (num_keywords initial_state) = 0" "table_of initial_state = []"
    "length (keyword_list initial_state) = MAX_KEYWORDS" "kd_root initial_state = None"
    by (simp_all add: initial_state_def table_of_def)
  have l: "length tls_client_string \<le> MAX_VAL_LEN" "length tls_client_string < 2 ^ 31"
    by (simp_all add: tls_client_string_def MAX_VAL_LEN_def)
  have "unat (num_keywords initial_state) < MAX_KEYWORDS" using z by (simp add: MAX_KEYWORDS_def)
  note ok = add_keyword_ok[OF this l(1), of ?p]
  show "kd_root client_only = None" "mem client_only = mem initial_state"
    unfolding client_only_def add_keyword_fields using z by simp_all
  show "unat (num_keywords client_only) = 1" unfolding client_only_def using ok z by simp
  show "table_of client_only = [(tls_client_string, ?p)]"
    unfolding client_only_def using table_of_append[OF z(3) l(2), of ?p] ok z by simp
qed

lemma init_keywords_table:
  assumes "num_keywords st = 0"
  shows "fst (init_keywords st) = 0" "kd_root (snd (init_keywords st)) = kd_root st"
    "mem (snd (init_keywords st)) = mem st" "unat (num_keywords (snd (init_keywords st))) = 2"
    "table_of (snd (init_keywords st)) = tls_table"
proof -
  let ?c = "\<lparr>dir = DIR_CLIENT, app = 443\<rparr>" and ?s = "\<lparr>dir = DIR_SERVER, app = 443\<rparr>"
  let ?st0 = "st\<lparr>keyword_list := replicate MAX_KEYWORDS zero_kc\<rparr>"
  let ?st1 = "snd (add_keyword tls_client_string (sizeof_u16 tls_client_string) ?c ?st0)"
  let ?st2 = "snd (add_keyword tls_server_string (sizeof_u16 tls_server_string) ?s ?st1)"
  have z: "unat (num_keywords ?st0) = 0" "table_of ?st0 = []"
    "length (keyword_list ?st0) = MAX_KEYWORDS"
    using assms by (simp_all add: table_of_def)
  have l: "length tls_client_string \<le> MAX_VAL_LEN" "length tls_client_string < 2 ^ 31"
     "length tls_server_string \<le> MAX_VAL_LEN" "length tls_server_string < 2 ^ 31"
    by (simp_all add: tls_client_string_def tls_server_string_def MAX_VAL_LEN_def)
  have "unat (num_keywords ?st0) < MAX_KEYWORDS" using z by (simp add: MAX_KEYWORDS_def)
  note ok1 = add_keyword_ok[OF this l(1), of ?c]
  have t1: "table_of ?st1 = [(tls_client_string, ?c)]"
    using table_of_append[OF z(3) l(2), of ?c] ok1 z by simp
  have "unat (num_keywords ?st1) < MAX_KEYWORDS" using ok1 z by (simp add: MAX_KEYWORDS_def)
  note ok2 = add_keyword_ok[OF this l(3), of ?s]
  have len1: "length (keyword_list ?st1) = MAX_KEYWORDS"
    unfolding add_keyword_fields using z by simp
  have t2: "table_of ?st2 = tls_table"
    using table_of_append[OF len1 l(4), of ?s] ok2 t1 by (simp add: tls_table_def)
  have e: "init_keywords st = (0, ?st2)"
    using ok1 ok2
    by (simp add: init_keywords_def populate_keyword_identifiers_def add_tls_identifiers_def
                  split_beta)
  show "fst (init_keywords st) = 0" using e by simp
  show "kd_root (snd (init_keywords st)) = kd_root st" unfolding e by (simp add: add_keyword_fields)
  show "mem (snd (init_keywords st)) = mem st" unfolding e by (simp add: add_keyword_fields)
  show "unat (num_keywords (snd (init_keywords st))) = 2" unfolding e using ok1 ok2 z by simp
  show "table_of (snd (init_keywords st)) = tls_table" unfolding e using t2 by simp
qed

lemma abuild_tls: "abuild (ANode 0 FNil zero_pi) tls_table (Suc 0) = Some (tls_tree, 8)"
  by (simp add: tls_table_def tls_tree_def tls_client_string_def tls_server_string_def
                MAX_CHILDREN_def WILDCARD_def)

lemma abuild_client:
  "abuild (ANode 0 FNil zero_pi) [(tls_client_string, \<lparr>dir = DIR_CLIENT, app = 443\<rparr>)] (Suc 0)
     = Some (client_tree, 7)"
  by (simp add: client_tree_def tls_client_string_def MAX_CHILDREN_def WILDCARD_def)

lemma identify_after_construct:
  assumes "kd_root st = None"
    and "abuild (ANode (brk (mem st)) FNil zero_pi) (table_of st) (Suc (brk (mem st)))
           = Some (t, b')"
  shows "\<exists>st'. construct_keyword_dict st = Inr (0, st')
           \<and> identify_tcp_protocol st' data = Inr (port_by_tree t data, st')
           \<and> kd_root st' \<noteq> None"
proof -
  from construct_refines[OF assms(1)] assms(2) obtain m' where
    c: "construct_keyword_dict st = Inr (0, st\<lparr>kd_root := Some (brk (mem st)), mem := m'\<rparr>)"
    and i: "tree_inv m' t" and r: "root_addr t = brk (mem st)"
    by auto
  let ?st' = "st\<lparr>kd_root := Some (brk (mem st)), mem := m'\<rparr>"
  have "kd_root ?st' = Some (root_addr t)" "trep (mem ?st') t None"
    using i r by (simp_all add: tree_inv_def)
  from identify_by_tree[OF this, of data] c show ?thesis
    by (auto simp: port_by_tree_def)
qed

lemma identify_unbuilt:
  assumes "kd_root st = None" and "num_keywords st \<noteq> 0"
    and "abuild (ANode (brk (mem st)) FNil zero_pi) (table_of st) (Suc (brk (mem st)))
           = Some (t, b')"
  shows "port_of (identify_tcp_protocol st data) = Some (port_by_tree t data)"
proof (cases "data = []")
  case True
  then show ?thesis by (simp add: identify_tcp_protocol_def port_of_def port_by_tree_def)
next
  case False
  from identify_after_construct[OF assms(1,3), of data] obtain st' where
    c: "construct_keyword_dict st = Inr (0, st')"
    and i: "identify_tcp_protocol st' data = Inr (port_by_tree t data, st')"
    and k: "kd_root st' \<noteq> None" by blast
  have "proto_identify_init_keyword_dict st = Inr (0, st')"
    using assms(1,2) c by (simp add: proto_identify_init_keyword_dict_def)
  from identify_lazy_init[OF assms(1) False this k] i show ?thesis
    by (simp add: port_of_def)
qed

lemma init_fresh:
  assumes "kd_root st = None" and "num_keywords st = 0"
    and "abuild (ANode (brk (mem st)) FNil zero_pi) tls_table (Suc (brk (mem st))) = Some (t, b')"
  shows "\<exists>st'. proto_identify_init_keyword_dict st = Inr (0, st')
           \<and> (\<forall>data. identify_tcp_protocol st' data = Inr (port_by_tree t data, st'))
           \<and> kd_root st' \<noteq> None"
proof -
  let ?st1 = "snd (init_keywords st)"
  note k = init_keywords_table[OF assms(2)]
  have e: "init_keywords st = (0, ?st1)" using k(1) by (simp add: prod_eq_iff)
  have a: "abuild (ANode (brk (mem ?st1)) FNil zero_pi) (table_of ?st1) (Suc (brk (mem ?st1)))
             = Some (t, b')"
    unfolding k using assms(3) .
  have n: "kd_root ?st1 = None" using k(2) assms(1) by simp
  from construct_refines[OF n] a obtain m' where
    c: "construct_keyword_dict ?st1
          = Inr (0, ?st1\<lparr>kd_root := Some (brk (mem ?st1)), mem := m'\<rparr>)"
    and i: "tree_inv m' t" and r: "root_addr t = brk (mem ?st1)"
    by auto
  let ?st' = "?st1\<lparr>kd_root := Some (brk (mem ?st1)), mem := m'\<rparr>"
  have p: "proto_identify_init_keyword_dict st = Inr (0, ?st')"
    using assms(1,2) k(1) c by (simp add: proto_identify_init_keyword_dict_def split_beta)
  have "kd_root ?st' = Some (root_addr t)" "trep (mem ?st') t None"
    using i r by (simp_all add: tree_inv_def)
  from identify_by_tree[OF this] have
    "identify_tcp_protocol ?st' data = Inr (port_by_tree t data, ?st')" for data
    by (simp add: port_by_tree_def)
  with p show ?thesis by (intro exI[of _ ?st']) simp
qed

lemma identify_fresh:
  assumes "kd_root st = None" and "num_keywords st = 0"
    and "abuild (ANode (brk (mem st)) FNil zero_pi) tls_table (Suc (brk (mem st))) = Some (t, b')"
  shows "port_of (identify_tcp_protocol st data) = Some (port_by_tree t data)"
proof (cases "data = []")
  case True
  then show ?thesis by (simp add: identify_tcp_protocol_def port_of_def port_by_tree_def)
next
  case False
  from init_fresh[OF assms] obtain st' where
    p: "proto_identify_init_keyword_dict st = Inr (0, st')"
    and i: "identify_tcp_protocol st' data = Inr (port_by_tree t data, st')"
    and k: "kd_root st' \<noteq> None" by blast
  from identify_lazy_init[OF assms(1) False p k] i show ?thesis
    by (simp add: port_of_def)
qed

lemma initial_fields:
  "kd_root initial_state = None" "num_keywords initial_state = 0" "brk (mem initial_state) = 0"
  by (simp_all add: initial_state_def)

lemma identify_initial:
  "port_of (identify_tcp_protocol initial_state data) = Some (port_by_tree tls_tree data)"
proof (rule identify_fresh[where b' = 8])
  show "abuild (ANode (brk (mem initial_state)) FNil zero_pi) tls_table
          (Suc (brk (mem initial_state))) = Some (tls_tree, 8)"
    unfolding initial_fields by (rule abuild_tls)
qed (rule initial_fields)+

lemma identify_after_init:
  "port_of (identify_tcp_protocol after_init data) = Some (port_by_tree tls_tree data)"
proof -
  have "abuild (ANode (brk (mem initial_state)) FNil zero_pi) tls_table
          (Suc (brk (mem initial_state))) = Some (tls_tree, 8)"
    unfolding initial_fields by (rule abuild_tls)
  from init_fresh[OF initial_fields(1,2) this] obtain st' where
    p: "proto_identify_init_keyword_dict initial_state = Inr (0, st')"
    and i: "\<forall>data. identify_tcp_protocol st' data = Inr (port_by_tree tls_tree data, st')"
    by blast
  from p have "after_init = st'" by (simp add: after_init_def)
  with i show ?thesis by (simp add: port_of_def)
qed

lemma identify_client_only:
  "port_of (identify_tcp_protocol client_only data) = Some (port_by_tree client_tree data)"
proof (rule identify_unbuilt[where b' = 7])
  show "kd_root client_only = None" by (rule client_only_facts)
  show "num_keywords client_only \<noteq> 0" using client_only_facts(3) by auto
  show "abuild (ANode (brk (mem client_only)) FNil zero_pi) (table_of client_only)
          (Suc (brk (mem client_only))) = Some (client_tree, 7)"
    unfolding client_only_facts initial_fields by (rule abuild_client)
qed

lemma edge_matches_simps [simp]:
  "edge_matches WILDCARD d"
  "edge_matches 0x16 0x16" "edge_matches 3 3" "edge_matches 1 1" "edge_matches 2 2"
  "\<not> edge_matches 1 2" "\<not> edge_matches 1 3" "\<not> edge_matches 2 3" "\<not> edge_matches 0x16 0xFF"
  by (simp_all add: edge_matches_def WILDCARD_def)

lemma tls_tree_search:
  "port_by_tree tls_tree [0x16, 3, 1, xx, yy, 1] = 443"
  "port_by_tree tls_tree [0x16, 3, 1, xx, yy, 2] = 443"
  "port_by_tree tls_tree [0x16, 3, 1, xx, yy, 3] = 0"
  "port_by_tree tls_tree [0x16, 3, 1, xx, yy] = 0"
  "port_by_tree tls_tree [0xFF, 0xFF, 0xFF] = 0"
  by (simp_all add: port_by_tree_def tls_tree_def zero_pi_def)

lemma client_tree_search:
  "port_by_tree client_tree [0x16, 3, 1, xx, yy, 1] = 443"
  "port_by_tree client_tree [0x16, 3, 1, xx, yy, 3] = 0"
  by (simp_all add: port_by_tree_def client_tree_def zero_pi_def)

subsection \<open>One-symbol signatures\<close>

lemma sig_of_one_symbol: "sig_of (one_symbol_kc v) = ([v], \<lparr>dir = DIR_CLIENT, app = 80\<rparr>)"
  by (simp add: sig_of_def one_symbol_kc_def)

lemma abuild_append:
  "abuild t (T1 @ T2) b =
     (case abuild t T1 b of None \<Rightarrow> None | Some (t', b') \<Rightarrow> abuild t' T2 b')"
  by (induction T1 arbitrary: t b) (auto split: option.splits)

lemma abuild_singles:
  "distinct (f_edges f @ vs) \<Longrightarrow> length (f_edges f) + length vs \<le> MAX_CHILDREN - 1 \<Longrightarrow>
   \<exists>f'. abuild (ANode a f p) (map (\<lambda>v. ([v], q)) vs) b = Some (ANode a f' p, b + length vs)
        \<and> f_edges f' = f_edges f @ vs"
proof (induction vs arbitrary: f b)
  case Nil
  then show ?case by simp
next
  case (Cons v vs)
  from Cons.prems(1) have "v \<notin> set (f_edges f)" by auto
  then have g: "fget f v = None" by (simp add: fget_None_iff)
  from Cons.prems(2) have l: "length (f_edges f) \<noteq> MAX_CHILDREN - 1" by simp
  let ?f1 = "fsnoc f v (ANode b FNil q)"
  have i: "ains (ANode a f p) [v] q b = Some (ANode a ?f1 p, Suc b)"
    using g l by simp
  have "distinct (f_edges ?f1 @ vs)" using Cons.prems(1) by simp
  moreover have "length (f_edges ?f1) + length vs \<le> MAX_CHILDREN - 1"
    using Cons.prems(2) by simp
  ultimately obtain f' where
    "abuild (ANode a ?f1 p) (map (\<lambda>v. ([v], q)) vs) (Suc b)
       = Some (ANode a f' p, Suc b + length vs)" "f_edges f' = f_edges ?f1 @ vs"
    using Cons.IH[of ?f1 "Suc b"] by blast
  with i show ?case by simp
qed

lemma distinct_symbols: "distinct (all_bytes @ [WILDCARD])"
proof -
  have "[0..<Suc 256] = [0..<256] @ [256]"
    by (rule upt_Suc_append) simp
  moreover have "(of_nat 256 :: 16 word) = WILDCARD"
    by (simp add: WILDCARD_def)
  ultimately have e: "all_bytes @ [WILDCARD] = map (of_nat :: nat \<Rightarrow> 16 word) [0..<Suc 256]"
    by (simp only: all_bytes_def map_append list.map)
  have i: "inj_on (of_nat :: nat \<Rightarrow> 16 word) (set [0..<Suc 256])"
  proof (rule inj_onI)
    fix x y :: nat
    assume "x \<in> set [0..<Suc 256]" "y \<in> set [0..<Suc 256]"
      and e: "(of_nat x :: 16 word) = of_nat y"
    then have "x < Suc 256" "y < Suc 256" by (simp_all only: set_upt atLeastLessThan_iff)
    then have "x < 2 ^ 16" "y < 2 ^ 16" by simp_all
    then have u: "unat (of_nat x :: 16 word) = x" "unat (of_nat y :: 16 word) = y"
      by (simp_all add: unat_of_nat)
    from e have "unat (of_nat x :: 16 word) = unat (of_nat y :: 16 word)"
      by (rule arg_cong)
    then show "x = y" by (simp only: u)
  qed
  show ?thesis unfolding e
    by (rule distinct_map[THEN iffD2]) (use i in \<open>simp only: distinct_upt simp_thms\<close>)
qed

lemma fresh_root_inv: "tree_inv fresh_root (ANode 0 FNil zero_pi)"
proof -
  have "cells fresh_root 0 = Some zero_node" "brk fresh_root = Suc 0"
    by (simp_all add: fresh_root_def alloc_kdn_def initial_state_def)
  with new_node_rep[of fresh_root 0] show ?thesis by (simp add: tree_inv_def)
qed

subsection \<open>Teardown\<close>

lemma destroy_rep:
  shows "trep m t sib \<Longrightarrow> tdist t \<Longrightarrow> tfuel t \<le> k \<Longrightarrow>
         \<exists>m'. destroy_kdn k m (Some (root_addr t)) = Inr m' \<and> freed (taddrs t) m m'"
    and "frep m f \<Longrightarrow> fdist f \<Longrightarrow> ffuel f \<le> k \<Longrightarrow>
         \<exists>m'. destroy_children k m (first_addr f) = Inr m' \<and> freed (faddrs f) m m'"
proof (induction t and f arbitrary: m sib k and m k)
  case (ANode a f p)
  from ANode.prems(3) obtain k' where k: "k = Suc k'" "ffuel f \<le> k'" by (cases k) auto
  from trep_cell[OF ANode.prems(1)] obtain n where n: "cells m a = Some n"
      "child n = first_addr f" "unat (num_children n) = length (f_edges f)" "frep m f"
    by auto
  from ANode.prems(2) have af: "a \<notin> faddrs f" and df: "fdist f" by simp_all
  show ?case
  proof (cases f)
    case FNil
    with n have "child n = None" by simp
    with n(1) k FNil show ?thesis
      by (auto simp: free_node_def freed_def)
  next
    case (FCons e t1 f1)
    with n have c: "child n \<noteq> None" and z: "num_children n \<noteq> 0" by auto
    from ANode.IH[OF n(4) df k(2)] obtain m1 where
      m1: "destroy_children k' m (first_addr f) = Inr m1" "freed (faddrs f) m m1" by blast
    from m1(2) af n(1) have "cells m1 a = Some n" by (simp add: freed_def)
    with m1 n c z k show ?thesis
      by (auto simp: free_node_def freed_def)
  qed
next
  case FNil
  then show ?case by (cases k) (auto simp: freed_def)
next
  case (FCons e t f)
  from FCons.prems(3) obtain k' where k: "k = Suc k'" "tfuel t \<le> k'" "ffuel f \<le> k'"
    by (cases k) auto
  from FCons.prems(1) have rt: "trep m t (first_addr f)" and rf: "frep m f" by simp_all
  from FCons.prems(2) have dt: "tdist t" and df: "fdist f"
    and dj: "taddrs t \<inter> faddrs f = {}" by simp_all
  from trep_cell[OF rt] obtain cn where cn: "cells m (root_addr t) = Some cn"
      "sibling cn = first_addr f" by blast
  from FCons.IH(1)[OF rt dt k(2)] obtain m1 where
    m1: "destroy_kdn k' m (Some (root_addr t)) = Inr m1" "freed (taddrs t) m m1" by blast
  have "same_on (faddrs f) m m1" using m1(2) dj by (auto simp: same_on_def freed_def)
  from frep_frame[OF rf this] have "frep m1 f" .
  from FCons.IH(2)[OF this df k(3)] obtain m2 where
    m2: "destroy_children k' m1 (first_addr f) = Inr m2" "freed (faddrs f) m1 m2" by blast
  have "freed (faddrs (FCons e t f)) m m2"
    using m1(2) m2(2) by (auto simp: freed_def)
  with cn m1(1) m2(1) k(1) show ?case by simp
qed

lemma destroy_freed_again:
  "cells m a = None \<Longrightarrow> destroy_kdn (Suc k) m (Some a) = Inl InvalidAccess"
  by simp

lemma teardown_unbuilt_noop:
  "kd_root st = None \<Longrightarrow> proto_identify_destroy_keyword_dict fuel st = Inr st"
  by (simp add: proto_identify_destroy_keyword_dict_def)

lemma teardown_then_dangling:
  assumes "kd_root st = Some (root_addr t)" and "tree_inv (mem st) t" and "tfuel t \<le> fuel"
  shows "\<exists>st'. proto_identify_destroy_keyword_dict fuel st = Inr st'
           \<and> kd_root st' = kd_root st
           \<and> (\<forall>x\<in>taddrs t. cells (mem st') x = None)
           \<and> (\<forall>k. proto_identify_destroy_keyword_dict (Suc k) st' = Inl InvalidAccess)
           \<and> (\<forall>d ds. identify_tcp_protocol st' (d # ds) = Inl InvalidAccess)"
proof -
  from assms(2) have r: "trep (mem st) t None" and d: "tdist t" by (simp_all add: tree_inv_def)
  from destroy_rep(1)[OF r d assms(3)] obtain m' where
    m': "destroy_kdn fuel (mem st) (Some (root_addr t)) = Inr m'" "freed (taddrs t) (mem st) m'"
    by blast
  let ?st' = "st\<lparr>mem := m'\<rparr>"
  have 1: "proto_identify_destroy_keyword_dict fuel st = Inr ?st'"
    using assms(1) m'(1) by (simp add: proto_identify_destroy_keyword_dict_def)
  have c: "\<forall>x\<in>taddrs t. cells m' x = None" using m'(2) by (simp add: freed_def)
  then have c0: "cells m' (root_addr t) = None" by simp
  have 2: "proto_identify_destroy_keyword_dict (Suc k) ?st' = Inl InvalidAccess" for k
    using assms(1) c0 by (simp add: proto_identify_destroy_keyword_dict_def)
  have 3: "identify_tcp_protocol ?st' (d # ds) = Inl InvalidAccess" for d ds
    using assms(1) c0 by (simp add: identify_tcp_protocol_def)
  from 1 2 3 c show ?thesis by (intro exI[of _ ?st']) simp
qed

subsection \<open>States named in the statements\<close>

lemma after_init_tree:
  "kd_root after_init = Some 0" "tree_inv (mem after_init) tls_tree"
  "proto_identify_init_keyword_dict initial_state = Inr (0, after_init)"
proof -
  let ?st1 = "snd (init_keywords initial_state)"
  note k = init_keywords_table[OF initial_fields(2)]
  have a: "abuild (ANode (brk (mem ?st1)) FNil zero_pi) (table_of ?st1) (Suc (brk (mem ?st1)))
             = Some (tls_tree, 8)"
    unfolding k initial_fields by (rule abuild_tls)
  have n: "kd_root ?st1 = None" using k(2) initial_fields by simp
  from construct_refines[OF n] a obtain m' where
    c: "construct_keyword_dict ?st1
          = Inr (0, ?st1\<lparr>kd_root := Some (brk (mem ?st1)), mem := m'\<rparr>)"
    and i: "tree_inv m' tls_tree"
    by auto
  let ?st' = "?st1\<lparr>kd_root := Some (brk (mem ?st1)), mem := m'\<rparr>"
  have p: "proto_identify_init_keyword_dict initial_state = Inr (0, ?st')"
    using initial_fields k(1) c by (simp add: proto_identify_init_keyword_dict_def split_beta)
  then have e: "after_init = ?st'" by (simp add: after_init_def)
  show "proto_identify_init_keyword_dict initial_state = Inr (0, after_init)"
    unfolding e by (rule p)
  show "kd_root after_init = Some 0" unfolding e using k(3) initial_fields by simp
  show "tree_inv (mem after_init) tls_tree" unfolding e using i by simp
qed

lemma dict_ready_initial: "dict_ready initial_state"
  by (simp add: dict_ready_def initial_fields)

lemma dict_ready_after_init: "dict_ready after_init"
proof -
  have "kd_root after_init = Some (root_addr tls_tree)"
    using after_init_tree(1) by (simp add: tls_tree_def)
  with after_init_tree(2) show ?thesis by (auto simp: dict_ready_def dict_built_def)
qed

lemma built_no_match_zero:
  assumes bt: "built_tree st st' t"
    and nm: "\<forall>(s, q)\<in>set (table_of st). \<not> sig_matches s bytes"
  shows "identify_tcp_protocol st' bytes = Inr (0, st')"
proof -
  note f = built_tree_facts[OF bt]
  note i = identify_by_tree[OF f(1,2), of bytes]
  show ?thesis
  proof (cases "asearch t bytes")
    case None
    with i show ?thesis by simp
  next
    case (Some c)
    from asearch_path[OF Some] obtain s where
      s: "alookup t s = Some c" "length s \<le> length bytes"
         "list_all2 edge_matches s (take (length s) bytes)" "app (node_pi c) \<noteq> 0" by blast
    from f(5) s(1,4) have "(s, node_pi c) \<in> set (table_of st)" by (simp add: tsound_def)
    with nm s(2,3) show ?thesis by (auto simp: sig_matches_def)
  qed
qed

lemma add_keyword_ready: "dict_ready st \<Longrightarrow> dict_ready (snd (add_keyword v n p st))"
proof -
  assume r: "dict_ready st"
  have "unat (num_keywords (snd (add_keyword v n p st))) \<le> MAX_KEYWORDS"
    if "unat (num_keywords st) \<le> MAX_KEYWORDS"
    using that by (simp add: add_keyword_def Let_def unat_word_ariths MAX_KEYWORDS_def)
  with r show ?thesis
    by (auto simp: dict_ready_def dict_built_def add_keyword_fields)
qed

lemma init_ready:
  assumes "dict_ready st" and "proto_identify_init_keyword_dict st = Inr (r, st')"
  shows "dict_ready st'"
proof (cases "kd_root st = None")
  case True
  with assms(1) have "unat (num_keywords st) \<le> MAX_KEYWORDS"
    by (auto simp: dict_ready_def dict_built_def)
  from init_builds[OF True this] assms(2) show ?thesis by (auto simp: dict_ready_def)
next
  case False
  with assms show ?thesis by (simp add: proto_identify_init_keyword_dict_def)
qed

lemma tls_loaded_facts:
  "kd_root tls_loaded = None" "mem tls_loaded = mem initial_state"
  "unat (num_keywords tls_loaded) = 2" "table_of tls_loaded = tls_table"
  using init_keywords_table[OF initial_fields(2), folded tls_loaded_def] initial_fields
  by simp_all

lemma lcp_tls: "lcp tls_client_string tls_server_string = 5"
  by (simp add: tls_client_string_def tls_server_string_def)

lemma mixed_state_facts:
  "kd_root mixed_state = None" "mem mixed_state = mem initial_state"
  "unat (num_keywords mixed_state) = 2"
  "table_of mixed_state = [(tls_client_string, \<lparr>dir = DIR_CLIENT, app = 443\<rparr>),
                            ([0x80, 0x01], \<lparr>dir = DIR_CLIENT, app = 80\<rparr>)]"
proof -
  let ?p = "\<lparr>dir = DIR_CLIENT, app = 80\<rparr>"
  note c = client_only_facts
  have len: "length (keyword_list client_only) = MAX_KEYWORDS"
    unfolding client_only_def add_keyword_fields by (simp add: initial_state_def)
  have l: "length [0x80, 0x01 :: 16 word] \<le> MAX_VAL_LEN" "length [0x80, 0x01 :: 16 word] < 2 ^ 31"
    by (simp_all add: MAX_VAL_LEN_def)
  have "unat (num_keywords client_only) < MAX_KEYWORDS" using c(3) by (simp add: MAX_KEYWORDS_def)
  note ok = add_keyword_ok[OF this l(1), of ?p]
  show "kd_root mixed_state = None" "mem mixed_state = mem initial_state"
    unfolding mixed_state_def add_keyword_fields using c by simp_all
  show "unat (num_keywords mixed_state) = 2" unfolding mixed_state_def using ok c(3) by simp
  show "table_of mixed_state = [(tls_client_string, \<lparr>dir = DIR_CLIENT, app = 443\<rparr>),
                            ([0x80, 0x01], ?p)]"
    unfolding mixed_state_def using table_of_append[OF len l(2), of ?p] ok c(4) by simp
qed

lemma abuild_mixed:
  "abuild (ANode 0 FNil zero_pi)
     [(tls_client_string, \<lparr>dir = DIR_CLIENT, app = 443\<rparr>),
      ([0x80, 0x01], \<lparr>dir = DIR_CLIENT, app = 80\<rparr>)] (Suc 0) = Some (mixed_tree, 9)"
  by (simp add: mixed_tree_def tls_client_string_def MAX_CHILDREN_def WILDCARD_def)

lemma mixed_tree_search: "port_by_tree mixed_tree [0x16, 3, 1, 0, 0, 1] = 443"
  by (simp add: port_by_tree_def mixed_tree_def zero_pi_def)

lemma every_table_loadable:
  "length T \<le> MAX_KEYWORDS \<Longrightarrow> (\<forall>(s, q)\<in>set T. length s \<le> MAX_VAL_LEN) \<Longrightarrow>
   \<exists>st. kd_root st = None \<and> mem st = mem initial_state
        \<and> length (keyword_list st) = MAX_KEYWORDS
        \<and> unat (num_keywords st) = length T \<and> table_of st = T"
proof (induction T rule: rev_induct)
  case Nil
  show ?case
    by (rule exI[of _ initial_state]) (simp add: initial_state_def table_of_def)
next
  case (snoc x T)
  obtain s q where x: "x = (s, q)" by (cases x)
  from snoc.prems have "length T \<le> MAX_KEYWORDS" "\<forall>(s, q)\<in>set T. length s \<le> MAX_VAL_LEN"
    by simp_all
  from snoc.IH[OF this] obtain st where
    st: "kd_root st = None" "mem st = mem initial_state"
        "length (keyword_list st) = MAX_KEYWORDS"
        "unat (num_keywords st) = length T" "table_of st = T" by blast
  from snoc.prems x have l: "length s \<le> MAX_VAL_LEN" and n: "unat (num_keywords st) < MAX_KEYWORDS"
    using st(4) by simp_all
  from l have l2: "length s < 2 ^ 31" by (simp add: MAX_VAL_LEN_def)
  let ?st' = "snd (add_keyword s (sizeof_u16 s) q st)"
  note ok = add_keyword_ok[OF n l, of q]
  have "table_of ?st' = T @ [x]"
    using table_of_append[OF st(3) l2, of q] ok st(5) x by simp
  moreover have "unat (num_keywords ?st') = length (T @ [x])" using ok st(4) by simp
  ultimately show ?case
    using st(1,2,3) by (intro exI[of _ ?st']) (simp add: add_keyword_fields)
qed

subsection \<open>What the search returns in a built dictionary\<close>

lemma built_search:
  assumes "kd_root st = Some (root_addr t)" and "trep (mem st) t sib"
  shows "search_keyword_dict (mem st) (kd_root st) data
           = Inr (map_option root_addr (asearch t data))"
    and "inference_of st data = map_option node_pi (asearch t data)"
    and "path_end (mem st) (kd_root st) s = map_option root_addr (alookup t s)"
proof -
  show 1: "search_keyword_dict (mem st) (kd_root st) data
           = Inr (map_option root_addr (asearch t data))"
    unfolding assms(1) using assms(2) by (rule search_refines)
  show "inference_of st data = map_option node_pi (asearch t data)"
  proof (cases "asearch t data")
    case None
    with 1 show ?thesis by (simp add: inference_of_def)
  next
    case (Some c)
    from asearch_rep[OF Some assms(2)] obtain sc where "trep (mem st) c sc" by blast
    from trep_cell[OF this] obtain n where "cells (mem st) (root_addr c) = Some n"
      "pi n = node_pi c" by blast
    with 1 Some show ?thesis by (simp add: inference_of_def)
  qed
  show "path_end (mem st) (kd_root st) s = map_option root_addr (alookup t s)"
    unfolding assms(1) using assms(2) by (rule path_end_refines)
qed

lemma after_init_rep:
  "kd_root after_init = Some (root_addr tls_tree)" "trep (mem after_init) tls_tree None"
  using after_init_tree by (simp_all add: tls_tree_def tree_inv_def)

lemma identify_initial_state:
  assumes "data \<noteq> []"
  shows "identify_tcp_protocol initial_state data = identify_tcp_protocol after_init data"
proof (rule identify_lazy_init[OF initial_fields(1) assms after_init_tree(3)])
  show "kd_root after_init \<noteq> None" using after_init_tree(1) by simp
qed

lemma identify_after_init_state:
  "identify_tcp_protocol after_init data = Inr (port_by_tree tls_tree data, after_init)"
  using identify_by_tree[OF after_init_rep, of data] by (simp add: port_by_tree_def)

lemma tls_tree_nodes:
  "asearch tls_tree [0x16, 3, 1, xx, yy, 1] = Some (ANode 6 FNil \<lparr>dir = DIR_CLIENT, app = 443\<rparr>)"
  "asearch tls_tree [0x16, 3, 1, xx, yy, 2] = Some (ANode 7 FNil \<lparr>dir = DIR_SERVER, app = 443\<rparr>)"
  "alookup tls_tree tls_client_string = Some (ANode 6 FNil \<lparr>dir = DIR_CLIENT, app = 443\<rparr>)"
  "alookup tls_tree tls_server_string = Some (ANode 7 FNil \<lparr>dir = DIR_SERVER, app = 443\<rparr>)"
  by (simp_all add: tls_tree_def zero_pi_def tls_client_string_def tls_server_string_def)

lemma after_init_table: "table_of after_init = tls_table"
proof -
  note k = tls_loaded_facts
  have i: "init_keywords initial_state = (0, tls_loaded)"
    using init_keywords_table(1)[OF initial_fields(2)] by (simp add: tls_loaded_def prod_eq_iff)
  have "unat (num_keywords tls_loaded) \<le> MAX_KEYWORDS" using k(3) by (simp add: MAX_KEYWORDS_def)
  from construct_builds[OF k(1) this] obtain st' where
    c: "construct_keyword_dict tls_loaded = Inr (0, st')" "table_of st' = table_of tls_loaded"
    by blast
  have "proto_identify_init_keyword_dict initial_state = Inr (0, st')"
    using initial_fields i c(1) by (simp add: proto_identify_init_keyword_dict_def)
  then have "after_init = st'" by (simp add: after_init_def)
  with c(2) k(4) show ?thesis by simp
qed

subsection \<open>Edges per node\<close>




subsection \<open>The table of the 256 byte values\<close>








lemma fappend_FNil [simp]: "fappend f FNil = f"
  by (induction f rule: forest_induct) simp_all



lemma f_edges_leaves [simp]: "f_edges (leaves b vs q) = vs"
  by (induction vs arbitrary: b) simp_all











text \<open>
  The test of \<open>kdn_create_sibling\<close>, evaluated outside what the table can hold:
  \<open>keyword_dict_add_keyword\<close> applied by hand to a root that already has the 256
  byte-value edges, with a one-symbol keyword for \<open>WILDCARD\<close>.  The test
  \<open>num_children == MAX_CHILDREN - 1\<close> refuses the edge and
  \<open>keyword_dict_add_keyword\<close> stores through the \<open>NULL\<close> it gets back.  No table
  leads here: it would have to hold 257 signatures.
\<close>

lemma sibling_refused_at_256:
  "fault_of (add_all_keywords fresh_root (Some 0) (map one_symbol_kc all_bytes)) = None
   \<and> fault_of (add_all_keywords fresh_root (Some 0)
                 (map one_symbol_kc (all_bytes @ [WILDCARD]))) = Some NullDeref"
proof -
  let ?q = "\<lparr>dir = DIR_CLIENT, app = 80\<rparr>"
  let ?t0 = "ANode 0 FNil zero_pi"
  have m: "map sig_of (map one_symbol_kc vs) = map (\<lambda>v. ([v], ?q)) vs" for vs
    by (simp add: sig_of_one_symbol)
  have len: "length all_bytes = 256" by (simp add: all_bytes_def)
  have d: "distinct (f_edges FNil @ all_bytes)" using distinct_symbols by simp
  have "length (f_edges FNil) + length all_bytes \<le> MAX_CHILDREN - 1"
    by (simp add: len MAX_CHILDREN_def)
  from abuild_singles[OF d this, of 0 zero_pi ?q "Suc 0"] obtain f' where
    a: "abuild ?t0 (map (\<lambda>v. ([v], ?q)) all_bytes) (Suc 0) = Some (ANode 0 f' zero_pi, Suc 0 + 256)"
    and e: "f_edges f' = all_bytes"
    by (auto simp: len)
  have b: "brk fresh_root = Suc 0" by (simp add: fresh_root_def alloc_kdn_def initial_state_def)
  from add_all_refines[OF fresh_root_inv, of "map one_symbol_kc all_bytes"] a
  have 1: "fault_of (add_all_keywords fresh_root (Some 0) (map one_symbol_kc all_bytes)) = None"
    unfolding m b by (auto simp: fault_of_def)
  have "WILDCARD \<notin> set (f_edges f')" using distinct_symbols e by simp
  then have "fget f' WILDCARD = None" by (simp add: fget_None_iff)
  then have "ains (ANode 0 f' zero_pi) [WILDCARD] ?q (Suc 0 + 256) = None"
    using e len by (simp add: MAX_CHILDREN_def)
  with a have "abuild ?t0 (map (\<lambda>v. ([v], ?q)) (all_bytes @ [WILDCARD])) (Suc 0) = None"
    by (simp add: abuild_append)
  with add_all_refines[OF fresh_root_inv, of "map one_symbol_kc (all_bytes @ [WILDCARD])"]
  have 2: "fault_of (add_all_keywords fresh_root (Some 0)
                 (map one_symbol_kc (all_bytes @ [WILDCARD]))) = Some NullDeref"
    unfolding m b by (simp add: fault_of_def)
  from 1 2 show ?thesis by blast
qed

subsection \<open>Classification in states with a usable dictionary\<close>

text \<open>
  In every state in which the dictionary is built, or not yet built with a
  table that fits the array, \<open>identify_tcp_protocol\<close> returns a protocol id for
  every buffer and leaves such a state again.  On the empty buffer it returns
  0 in every state.  In the dictionary built from a table, a buffer that no
  signature of the table matches is answered with 0.
\<close>

lemma identify_total_if_ready:
  "(dict_ready st \<longrightarrow>
      (\<exists>p st'. identify_tcp_protocol st bytes = Inr (p, st') \<and> dict_ready st'))
   \<and> identify_tcp_protocol st [] = Inr (0, st)
   \<and> (kd_root st = None \<and> unat (num_keywords st) \<le> MAX_KEYWORDS \<longrightarrow>
        (\<exists>st'. construct_keyword_dict st = Inr (0, st')
           \<and> (\<forall>bs. (\<forall>(s, q)\<in>set (table_of st). \<not> sig_matches s bs) \<longrightarrow>
                    identify_tcp_protocol st' bs = Inr (0, st'))))
   \<and> port_of (identify_tcp_protocol initial_state [0xFF, 0xFF, 0xFF]) = Some 0
   \<and> port_of (identify_tcp_protocol after_init [0xFF, 0xFF, 0xFF]) = Some 0"
proof -
  have 1: "dict_ready st \<longrightarrow>
      (\<exists>p st'. identify_tcp_protocol st bytes = Inr (p, st') \<and> dict_ready st')"
    using identify_total by blast
  have 2: "identify_tcp_protocol st [] = Inr (0, st)"
    by (simp add: identify_tcp_protocol_def)
  have 3: "kd_root st = None \<and> unat (num_keywords st) \<le> MAX_KEYWORDS \<longrightarrow>
        (\<exists>st'. construct_keyword_dict st = Inr (0, st')
           \<and> (\<forall>bs. (\<forall>(s, q)\<in>set (table_of st). \<not> sig_matches s bs) \<longrightarrow>
                    identify_tcp_protocol st' bs = Inr (0, st')))"
  proof
    assume "kd_root st = None \<and> unat (num_keywords st) \<le> MAX_KEYWORDS"
    then have a: "kd_root st = None" "unat (num_keywords st) \<le> MAX_KEYWORDS" by simp_all
    from construct_builds[OF a] obtain st' where c: "construct_keyword_dict st = Inr (0, st')"
      by blast
    from construct_tree[OF a(1) c] obtain t where "built_tree st st' t" by blast
    from built_no_match_zero[OF this] c show "\<exists>st'. construct_keyword_dict st = Inr (0, st')
           \<and> (\<forall>bs. (\<forall>(s, q)\<in>set (table_of st). \<not> sig_matches s bs) \<longrightarrow>
                    identify_tcp_protocol st' bs = Inr (0, st'))" by blast
  qed
  have 4: "port_of (identify_tcp_protocol initial_state [0xFF, 0xFF, 0xFF]) = Some 0"
    "port_of (identify_tcp_protocol after_init [0xFF, 0xFF, 0xFF]) = Some 0"
    by (simp_all add: identify_initial identify_after_init tls_tree_search)
  from 1 2 3 4 show ?thesis by blast
qed

lemma identify_total_if_ready_example:
  "dict_ready initial_state
   \<and> (\<exists>p st'. identify_tcp_protocol initial_state [0xFF, 0xFF, 0xFF] = Inr (p, st')
              \<and> dict_ready st')
   \<and> kd_root tls_loaded = None \<and> unat (num_keywords tls_loaded) \<le> MAX_KEYWORDS
   \<and> table_of tls_loaded = tls_table
   \<and> \<not> sig_matches tls_client_string [0xFF, 0xFF, 0xFF]
   \<and> \<not> sig_matches tls_server_string [0xFF, 0xFF, 0xFF]
   \<and> (\<exists>st'. construct_keyword_dict tls_loaded = Inr (0, st')
            \<and> identify_tcp_protocol st' [0xFF, 0xFF, 0xFF] = Inr (0, st'))"
proof -
  note k = init_keywords_table[OF initial_fields(2), folded tls_loaded_def]
  have a: "kd_root tls_loaded = None" "unat (num_keywords tls_loaded) \<le> MAX_KEYWORDS"
    using k initial_fields by (simp_all add: MAX_KEYWORDS_def)
  have m: "\<not> sig_matches tls_client_string [0xFF, 0xFF, 0xFF]"
    "\<not> sig_matches tls_server_string [0xFF, 0xFF, 0xFF]"
    by (simp_all add: sig_matches_def tls_client_string_def tls_server_string_def)
  then have n: "\<forall>(s, q)\<in>set (table_of tls_loaded). \<not> sig_matches s [0xFF, 0xFF, 0xFF]"
    unfolding k by (simp add: tls_table_def)
  from identify_total_if_ready[of initial_state "[0xFF, 0xFF, 0xFF]"] dict_ready_initial
  have 1: "\<exists>p st'. identify_tcp_protocol initial_state [0xFF, 0xFF, 0xFF] = Inr (p, st')
              \<and> dict_ready st'" by blast
  from identify_total_if_ready[of tls_loaded "[]"] a n
  have 2: "\<exists>st'. construct_keyword_dict tls_loaded = Inr (0, st')
            \<and> identify_tcp_protocol st' [0xFF, 0xFF, 0xFF] = Inr (0, st')" by blast
  from dict_ready_initial 1 a k(5) m 2 show ?thesis by blast
qed

section \<open>The claims\<close>

text \<open>
  C1.  Teardown is not idempotent.  \<open>proto_identify_destroy_keyword_dict\<close>
  frees the tree but leaves \<open>kd_root\<close> pointing at the freed root.  After
  initialisation, the first teardown succeeds; \<open>kd_root\<close> is unchanged and
  not \<open>NULL\<close>; the second teardown passes the \<open>NULL\<close> test and reads the
  freed root node.  (Before any build, \<open>kd_root\<close> is \<open>NULL\<close> and teardown
  does nothing: lemma \<open>teardown_unbuilt_noop\<close>.)
\<close>

theorem teardown_twice_faults:
  "fault_of (proto_identify_destroy_keyword_dict 100 after_init) = None
   \<and> kd_root after_teardown = kd_root after_init
   \<and> kd_root after_teardown \<noteq> None
   \<and> fault_of (proto_identify_destroy_keyword_dict 100 after_teardown) = Some InvalidAccess"
proof -
  have r: "kd_root after_init = Some (root_addr tls_tree)"
    using after_init_tree(1) by (simp add: tls_tree_def)
  have f: "tfuel tls_tree \<le> 100" by (simp add: tls_tree_def)
  from teardown_then_dangling[OF r after_init_tree(2) f] obtain st' where
    s: "proto_identify_destroy_keyword_dict 100 after_init = Inr st'"
       "kd_root st' = kd_root after_init"
       "\<forall>k. proto_identify_destroy_keyword_dict (Suc k) st' = Inl InvalidAccess"
    by blast
  from s(1) have e: "after_teardown = st'" by (simp add: after_teardown_def)
  have "proto_identify_destroy_keyword_dict 100 st' = Inl InvalidAccess"
    using s(3)[rule_format, of 99] by simp
  with s e after_init_tree(1) show ?thesis by (simp add: fault_of_def)
qed




text \<open>
  C3.  With the TLS catalog loaded (by the lazy initialisation of the first
  call, or by an earlier \<open>proto_identify_init_keyword_dict\<close>), the buffers
  \<open>16 03 01 00 2F 01\<close> and \<open>16 03 01 00 2F 02\<close> are both identified as
  protocol 443, and the dictionary is the one \<open>proto_identify_init_keyword_dict\<close>
  builds.  The first buffer is answered with the inference of the client
  signature and the second with the inference of the server signature: the
  node the search returns is the node at the end of that signature's path,
  the two nodes are different, and the inferences stored there have the
  directions \<open>DIR_CLIENT\<close> and \<open>DIR_SERVER\<close>.
\<close>

theorem tls_hello_identified:
  "identify_tcp_protocol initial_state [0x16, 3, 1, 0, 0x2F, 1] = Inr (443, after_init)
   \<and> identify_tcp_protocol initial_state [0x16, 3, 1, 0, 0x2F, 2] = Inr (443, after_init)
   \<and> identify_tcp_protocol after_init [0x16, 3, 1, 0, 0x2F, 1] = Inr (443, after_init)
   \<and> identify_tcp_protocol after_init [0x16, 3, 1, 0, 0x2F, 2] = Inr (443, after_init)
   \<and> table_of after_init = [(tls_client_string, \<lparr>dir = DIR_CLIENT, app = 443\<rparr>),
                             (tls_server_string, \<lparr>dir = DIR_SERVER, app = 443\<rparr>)]
   \<and> inference_of after_init [0x16, 3, 1, 0, 0x2F, 1] = Some \<lparr>dir = DIR_CLIENT, app = 443\<rparr>
   \<and> inference_of after_init [0x16, 3, 1, 0, 0x2F, 2] = Some \<lparr>dir = DIR_SERVER, app = 443\<rparr>
   \<and> search_keyword_dict (mem after_init) (kd_root after_init) [0x16, 3, 1, 0, 0x2F, 1]
       = Inr (path_end (mem after_init) (kd_root after_init) tls_client_string)
   \<and> search_keyword_dict (mem after_init) (kd_root after_init) [0x16, 3, 1, 0, 0x2F, 2]
       = Inr (path_end (mem after_init) (kd_root after_init) tls_server_string)
   \<and> path_end (mem after_init) (kd_root after_init) tls_client_string = Some 6
   \<and> path_end (mem after_init) (kd_root after_init) tls_server_string = Some 7
   \<and> DIR_CLIENT \<noteq> DIR_SERVER"
proof -
  note b = built_search[OF after_init_rep]
  have t: "table_of after_init = [(tls_client_string, \<lparr>dir = DIR_CLIENT, app = 443\<rparr>),
                             (tls_server_string, \<lparr>dir = DIR_SERVER, app = 443\<rparr>)]"
    using after_init_table by (simp add: tls_table_def)
  show ?thesis
    by (simp add: identify_initial_state identify_after_init_state tls_tree_search b
                  tls_tree_nodes t DIR_CLIENT_def DIR_SERVER_def
             del: asearch.simps alookup.simps)
qed

text \<open>
  C4.  A wildcard edge passes the edge test for every byte.  With the
  signature \<open>16 03 01 * * 01\<close> in the dictionary (alone, or within the TLS
  catalog), every buffer \<open>16 03 01 xx yy 01\<close> is identified
  as protocol 443, for all byte values \<open>xx\<close> and \<open>yy\<close>, and every buffer
  \<open>16 03 01 xx yy 03\<close> is answered with 0.
\<close>

theorem wildcard_positions_match_any_byte:
  "edge_matches WILDCARD d
   \<and> port_of (identify_tcp_protocol client_only [0x16, 3, 1, xx, yy, 1]) = Some 443
   \<and> port_of (identify_tcp_protocol client_only [0x16, 3, 1, xx, yy, 3]) = Some 0
   \<and> port_of (identify_tcp_protocol initial_state [0x16, 3, 1, xx, yy, 1]) = Some 443
   \<and> port_of (identify_tcp_protocol initial_state [0x16, 3, 1, xx, yy, 3]) = Some 0
   \<and> port_of (identify_tcp_protocol after_init [0x16, 3, 1, xx, yy, 1]) = Some 443
   \<and> port_of (identify_tcp_protocol after_init [0x16, 3, 1, xx, yy, 3]) = Some 0"
  by (simp add: identify_client_only identify_initial identify_after_init
                tls_tree_search client_tree_search)

text \<open>
  C5.  With the TLS catalog loaded, the five-byte buffer \<open>16 03 01 00 2F\<close> is
  answered with 0: the bytes run out before a node with a protocol id is
  reached.
\<close>

theorem tls_truncated_unknown:
  "port_of (identify_tcp_protocol initial_state [0x16, 3, 1, 0, 0x2F]) = Some 0
   \<and> port_of (identify_tcp_protocol after_init [0x16, 3, 1, 0, 0x2F]) = Some 0"
  by (simp add: identify_initial identify_after_init tls_tree_search)

text \<open>
  C6.  For every table that fits the array, \<open>construct_keyword_dict\<close>
  succeeds; the nodes of the tree are the root and the nodes allocated after
  it, and in every one of them the edges in use are pairwise different.
  When the table holds exactly two signatures, the build allocates the root
  and one node per symbol, except that the symbols of the longest common
  prefix get one node, not two; and every node on the common prefix (reached
  from the root by a proper prefix of it, along either signature) has exactly
  one child.
\<close>

theorem build_edges_unique:
  assumes "kd_root st = None" and "unat (num_keywords st) \<le> MAX_KEYWORDS"
  shows "\<exists>st'. construct_keyword_dict st = Inr (0, st')
      \<and> kd_root st' = Some (brk (mem st))
      \<and> (\<forall>a. brk (mem st) \<le> a \<and> a < brk (mem st') \<longrightarrow>
            (\<exists>n. cells (mem st') a = Some n
                 \<and> distinct (take (unat (num_children n)) (edge n))))
      \<and> (\<forall>s1 q1 s2 q2. table_of st = [(s1, q1), (s2, q2)] \<longrightarrow>
            brk (mem st') = brk (mem st) + (1 + length s1 + length s2 - lcp s1 s2)
            \<and> (\<forall>j<lcp s1 s2.
                  \<exists>a n. path_end (mem st') (kd_root st') (take j s1) = Some a
                       \<and> path_end (mem st') (kd_root st') (take j s2) = Some a
                       \<and> cells (mem st') a = Some n \<and> num_children n = 1))"
proof -
  from construct_builds[OF assms] obtain st' where
    c: "construct_keyword_dict st = Inr (0, st')" by blast
  from construct_tree[OF assms(1) c] obtain t where bt: "built_tree st st' t" by blast
  have 1: "\<forall>a. brk (mem st) \<le> a \<and> a < brk (mem st') \<longrightarrow>
            (\<exists>n. cells (mem st') a = Some n
                 \<and> distinct (take (unat (num_children n)) (edge n)))"
    using built_distinct_edges[OF bt] by blast
  have 2: "\<forall>s1 q1 s2 q2. table_of st = [(s1, q1), (s2, q2)] \<longrightarrow>
            brk (mem st') = brk (mem st) + (1 + length s1 + length s2 - lcp s1 s2)
            \<and> (\<forall>j<lcp s1 s2.
                  \<exists>a n. path_end (mem st') (kd_root st') (take j s1) = Some a
                       \<and> path_end (mem st') (kd_root st') (take j s2) = Some a
                       \<and> cells (mem st') a = Some n \<and> num_children n = 1)"
    using built_two_signatures[OF bt] by blast
  have 0: "kd_root st' = Some (brk (mem st))" using bt by (simp add: built_tree_def)
  from c 0 1 2 show ?thesis by blast
qed

theorem build_edges_unique_witness:
  "kd_root tls_loaded = None \<and> unat (num_keywords tls_loaded) \<le> MAX_KEYWORDS
   \<and> table_of tls_loaded = [(tls_client_string, \<lparr>dir = DIR_CLIENT, app = 443\<rparr>),
                             (tls_server_string, \<lparr>dir = DIR_SERVER, app = 443\<rparr>)]
   \<and> (\<exists>st'. construct_keyword_dict tls_loaded = Inr (0, st')
         \<and> kd_root st' = Some 0
         \<and> brk (mem st') = 8
         \<and> (\<exists>n. cells (mem st') 5 = Some n
                \<and> distinct (take (unat (num_children n)) (edge n)))
         \<and> (\<exists>a n. path_end (mem st') (kd_root st') (take 4 tls_client_string) = Some a
                  \<and> path_end (mem st') (kd_root st') (take 4 tls_server_string) = Some a
                  \<and> cells (mem st') a = Some n \<and> num_children n = 1))"
proof -
  note k = tls_loaded_facts
  have a: "kd_root tls_loaded = None" "unat (num_keywords tls_loaded) \<le> MAX_KEYWORDS"
    using k by (simp_all add: MAX_KEYWORDS_def)
  have t: "table_of tls_loaded = [(tls_client_string, \<lparr>dir = DIR_CLIENT, app = 443\<rparr>),
                             (tls_server_string, \<lparr>dir = DIR_SERVER, app = 443\<rparr>)]"
    using k(4) by (simp add: tls_table_def)
  have b: "brk (mem tls_loaded) = 0" using k(2) initial_fields by simp
  have l: "length tls_client_string = 6" "length tls_server_string = 6"
    by (simp_all add: tls_client_string_def tls_server_string_def)
  from build_edges_unique[OF a] obtain st' where
    c: "construct_keyword_dict tls_loaded = Inr (0, st')"
    and r: "kd_root st' = Some (brk (mem tls_loaded))"
    and d: "\<forall>a. brk (mem tls_loaded) \<le> a \<and> a < brk (mem st') \<longrightarrow>
            (\<exists>n. cells (mem st') a = Some n
                 \<and> distinct (take (unat (num_children n)) (edge n)))"
    and s: "\<forall>s1 q1 s2 q2. table_of tls_loaded = [(s1, q1), (s2, q2)] \<longrightarrow>
            brk (mem st') = brk (mem tls_loaded) + (1 + length s1 + length s2 - lcp s1 s2)
            \<and> (\<forall>j<lcp s1 s2.
                  \<exists>a n. path_end (mem st') (kd_root st') (take j s1) = Some a
                       \<and> path_end (mem st') (kd_root st') (take j s2) = Some a
                       \<and> cells (mem st') a = Some n \<and> num_children n = 1)"
    by (elim exE conjE) (rule that)
  from r b have r0: "kd_root st' = Some 0" by simp
  from s[rule_format, OF t] have
    s1: "brk (mem st') = 8"
    and s2: "\<forall>j<5. \<exists>a n. path_end (mem st') (kd_root st') (take j tls_client_string) = Some a
                       \<and> path_end (mem st') (kd_root st') (take j tls_server_string) = Some a
                       \<and> cells (mem st') a = Some n \<and> num_children n = 1"
    unfolding lcp_tls b l by simp_all
  from d[rule_format, of 5] b s1 have
    d5: "\<exists>n. cells (mem st') 5 = Some n \<and> distinct (take (unat (num_children n)) (edge n))"
    by simp
  from s2[rule_format, of 4] have
    "\<exists>a n. path_end (mem st') (kd_root st') (take 4 tls_client_string) = Some a
          \<and> path_end (mem st') (kd_root st') (take 4 tls_server_string) = Some a
          \<and> cells (mem st') a = Some n \<and> num_children n = 1" by simp
  with a t c r0 s1 d5 show ?thesis by blast
qed

text \<open>
  C7.  \<open>add_keyword\<close>, called as the program calls it (with \<open>sizeof\<close> of the
  symbol array), fails exactly when the table already holds \<open>MAX_KEYWORDS\<close>
  signatures (the "no more slots" failure) or the signature has more than
  \<open>MAX_VAL_LEN\<close> symbols (the "value too long" failure).  A failing call
  leaves the whole state, hence the table and its count, as it was; a
  successful call appends the signature with its inference and raises the
  count by one.
\<close>

theorem add_keyword_contract:
  assumes "length (keyword_list st) = MAX_KEYWORDS"
    and "length v < 2 ^ 31"
    and "add_keyword v (sizeof_u16 v) p st = (r, st')"
  shows "(r \<noteq> AddOk \<longleftrightarrow> MAX_KEYWORDS \<le> unat (num_keywords st) \<or> MAX_VAL_LEN < length v)
       \<and> (r = NoMoreSlots \<longleftrightarrow> MAX_KEYWORDS \<le> unat (num_keywords st))
       \<and> (r = ValueTooLong \<longleftrightarrow>
             unat (num_keywords st) < MAX_KEYWORDS \<and> MAX_VAL_LEN < length v)
       \<and> (r \<noteq> AddOk \<longrightarrow> st' = st)
       \<and> (r = AddOk \<longrightarrow>
             table_of st' = table_of st @ [(v, p)]
             \<and> unat (num_keywords st') = Suc (unat (num_keywords st)))"
proof -
  have r: "r = fst (add_keyword v (sizeof_u16 v) p st)"
    and s: "st' = snd (add_keyword v (sizeof_u16 v) p st)"
    using assms(3) by simp_all
  have a: "r \<noteq> AddOk \<longleftrightarrow> MAX_KEYWORDS \<le> unat (num_keywords st) \<or> MAX_VAL_LEN < length v"
    unfolding r add_keyword_fail_iff sizeof_gt_iff[OF assms(2)] ..
  have b: "r = NoMoreSlots \<longleftrightarrow> MAX_KEYWORDS \<le> unat (num_keywords st)"
    unfolding r by (simp add: add_keyword_def Let_def)
  have c: "r = ValueTooLong \<longleftrightarrow> unat (num_keywords st) < MAX_KEYWORDS \<and> MAX_VAL_LEN < length v"
    unfolding r using sizeof_gt_iff[OF assms(2)] by (auto simp: add_keyword_def Let_def)
  have d: "r \<noteq> AddOk \<longrightarrow> st' = st"
    unfolding r s using add_keyword_fail_same by blast
  have e: "r = AddOk \<longrightarrow> table_of st' = table_of st @ [(v, p)]"
    unfolding r s using table_of_append[OF assms(1,2)] by blast
  have f: "r = AddOk \<longrightarrow> unat (num_keywords st') = Suc (unat (num_keywords st))"
    unfolding r s
    by (auto simp: add_keyword_def Let_def unat_word_ariths MAX_KEYWORDS_def split: if_splits)
  from a b c d e f show ?thesis by blast
qed

theorem add_keyword_contract_witness:
  "fst (add_keyword tls_client_string (sizeof_u16 tls_client_string)
          \<lparr>dir = DIR_CLIENT, app = 443\<rparr> initial_state) = AddOk
   \<and> table_of (snd (add_keyword tls_client_string (sizeof_u16 tls_client_string)
                     \<lparr>dir = DIR_CLIENT, app = 443\<rparr> initial_state))
       = [(tls_client_string, \<lparr>dir = DIR_CLIENT, app = 443\<rparr>)]"
proof -
  have l: "length (keyword_list initial_state) = MAX_KEYWORDS"
    by (simp add: initial_state_def)
  have s: "length tls_client_string < 2 ^ 31"
    by (simp add: tls_client_string_def)
  have n: "unat (num_keywords initial_state) = 0" "table_of initial_state = []"
    by (simp_all add: initial_state_def table_of_def)
  have k: "\<not> MAX_KEYWORDS \<le> 0" "\<not> MAX_VAL_LEN < length tls_client_string"
    by (simp_all add: MAX_KEYWORDS_def MAX_VAL_LEN_def tls_client_string_def)
  from add_keyword_contract[OF l s surjective_pairing] show ?thesis
    unfolding n using k by simp
qed

text \<open>
  C8.  Classification is not total.  After
  \<open>proto_identify_init_keyword_dict()\<close> and
  \<open>proto_identify_destroy_keyword_dict()\<close> the pointer \<open>kd_root\<close> still holds
  the address of the freed root (the missing reset of C1).
  \<open>identify_tcp_protocol\<close> therefore skips its lazy initialisation, and
  \<open>search_keyword_dict\<close> reads the freed node: a non-empty buffer, \<open>FF FF FF\<close>
  or a TLS hello, ends in an invalid access and not in a protocol id.  The
  empty buffer is answered with 0 before \<open>kd_root\<close> is looked at.  (Where the
  dictionary is built or still to be built the function does return: lemma
  \<open>identify_total_if_ready\<close>.)
\<close>

theorem identify_after_teardown_faults:
  "fault_of (proto_identify_init_keyword_dict initial_state) = None
   \<and> fault_of (proto_identify_destroy_keyword_dict 100 after_init) = None
   \<and> kd_root after_teardown = kd_root after_init
   \<and> kd_root after_teardown \<noteq> None
   \<and> fault_of (identify_tcp_protocol after_teardown [0xFF, 0xFF, 0xFF]) = Some InvalidAccess
   \<and> fault_of (identify_tcp_protocol after_teardown [0x16, 3, 1, 0, 0x2F, 1]) = Some InvalidAccess
   \<and> identify_tcp_protocol after_teardown [] = Inr (0, after_teardown)"
proof -
  have r: "kd_root after_init = Some (root_addr tls_tree)"
    using after_init_tree(1) by (simp add: tls_tree_def)
  have f: "tfuel tls_tree \<le> 100" by (simp add: tls_tree_def)
  from teardown_then_dangling[OF r after_init_tree(2) f] obtain st' where
    s: "proto_identify_destroy_keyword_dict 100 after_init = Inr st'"
       "kd_root st' = kd_root after_init"
       "\<forall>d ds. identify_tcp_protocol st' (d # ds) = Inl InvalidAccess"
    by blast
  from s(1) have e: "after_teardown = st'" by (simp add: after_teardown_def)
  have "identify_tcp_protocol after_teardown [] = Inr (0, after_teardown)"
    by (simp add: identify_tcp_protocol_def)
  with s e after_init_tree(1,3) show ?thesis by (simp add: fault_of_def)
qed

lemma built_result_justified:
  assumes bt: "built_tree st st' t"
    and "identify_tcp_protocol st' bytes = Inr (p, st'')" and "p \<noteq> 0"
  shows "\<exists>s q. (s, q) \<in> set (table_of st) \<and> app q = p \<and> sig_matches s bytes
               \<and> (\<forall>x\<in>set s. \<not> (0x80 \<le> x \<and> x \<le> 0xFF))"
proof -
  note f = built_tree_facts[OF bt]
  from identify_by_tree[OF f(1,2), of bytes] assms(2,3) obtain c where
    c: "asearch t bytes = Some c" "app (node_pi c) = p"
    by (auto split: option.splits)
  from asearch_path[OF c(1)] obtain s where
    s: "alookup t s = Some c" "length s \<le> length bytes"
       "list_all2 edge_matches s (take (length s) bytes)" "app (node_pi c) \<noteq> 0" by blast
  from f(5) s(1,4) have m: "(s, node_pi c) \<in> set (table_of st)" by (simp add: tsound_def)
  have "\<not> (0x80 \<le> x \<and> x \<le> 0xFF)" if "x \<in> set s" for x
    using list_all2_partner[OF s(3) that] edge_never_matches[of x] by blast
  with m c(2) s(2,3) show ?thesis unfolding sig_matches_def by blast
qed

text \<open>
  C9.  The matcher compares the input byte as a signed \<open>char\<close> with the
  unsigned 16-bit edge symbol, so an edge whose symbol lies in \<open>0x80..0xFF\<close>
  passes the edge test for no byte.  Hence, in the dictionary built from any
  table that fits the array: for every signature of the table that contains
  such a symbol, the node that carries the signature's inference exists, and
  \<open>search_keyword_dict\<close> returns a pointer to it for no input; and whenever
  \<open>identify_tcp_protocol\<close> returns a non-zero protocol id, that id is the
  inference of a signature of the table which matches the input and contains
  no symbol in \<open>0x80..0xFF\<close>.
\<close>

theorem high_literal_never_matched:
  assumes "kd_root st = None" and "unat (num_keywords st) \<le> MAX_KEYWORDS"
  shows "\<exists>st'. construct_keyword_dict st = Inr (0, st')
    \<and> (\<forall>s q x. (s, q) \<in> set (table_of st) \<and> x \<in> set s \<and> 0x80 \<le> x \<and> x \<le> 0xFF \<longrightarrow>
          (\<forall>d. \<not> edge_matches x d)
          \<and> (\<exists>a. path_end (mem st') (kd_root st') s = Some a
                 \<and> (\<forall>bytes. search_keyword_dict (mem st') (kd_root st') bytes
                              \<noteq> Inr (Some a))))
    \<and> (\<forall>bytes p st''. identify_tcp_protocol st' bytes = Inr (p, st'') \<and> p \<noteq> 0 \<longrightarrow>
          (\<exists>s q. (s, q) \<in> set (table_of st) \<and> app q = p \<and> sig_matches s bytes
                \<and> (\<forall>x\<in>set s. \<not> (0x80 \<le> x \<and> x \<le> 0xFF))))"
proof -
  from construct_builds[OF assms] obtain st' where
    c: "construct_keyword_dict st = Inr (0, st')" by blast
  from construct_tree[OF assms(1) c] obtain t where bt: "built_tree st st' t" by blast
  have 1: "\<forall>s q x. (s, q) \<in> set (table_of st) \<and> x \<in> set s \<and> 0x80 \<le> x \<and> x \<le> 0xFF \<longrightarrow>
          (\<forall>d. \<not> edge_matches x d)
          \<and> (\<exists>a. path_end (mem st') (kd_root st') s = Some a
                 \<and> (\<forall>bytes. search_keyword_dict (mem st') (kd_root st') bytes
                              \<noteq> Inr (Some a)))"
    using built_never_returns[OF bt] edge_never_matches by blast
  have 2: "\<forall>bytes p st''. identify_tcp_protocol st' bytes = Inr (p, st'') \<and> p \<noteq> 0 \<longrightarrow>
          (\<exists>s q. (s, q) \<in> set (table_of st) \<and> app q = p \<and> sig_matches s bytes
                \<and> (\<forall>x\<in>set s. \<not> (0x80 \<le> x \<and> x \<le> 0xFF)))"
    using built_result_justified[OF bt] by blast
  from c 1 2 show ?thesis by blast
qed

theorem high_literal_never_matched_witness:
  "kd_root mixed_state = None \<and> unat (num_keywords mixed_state) \<le> MAX_KEYWORDS
   \<and> ([0x80, 0x01], \<lparr>dir = DIR_CLIENT, app = 80\<rparr>) \<in> set (table_of mixed_state)
   \<and> (\<exists>st'. construct_keyword_dict mixed_state = Inr (0, st')
        \<and> (\<exists>a. path_end (mem st') (kd_root st') [0x80, 0x01] = Some a
              \<and> (\<forall>bytes. search_keyword_dict (mem st') (kd_root st') bytes \<noteq> Inr (Some a)))
        \<and> identify_tcp_protocol st' [0x16, 3, 1, 0, 0, 1] = Inr (443, st')
        \<and> (\<exists>s q. (s, q) \<in> set (table_of mixed_state) \<and> app q = 443
               \<and> sig_matches s [0x16, 3, 1, 0, 0, 1]
               \<and> (\<forall>x\<in>set s. \<not> (0x80 \<le> x \<and> x \<le> 0xFF))))"
proof -
  note k = mixed_state_facts
  have a: "kd_root mixed_state = None" "unat (num_keywords mixed_state) \<le> MAX_KEYWORDS"
    using k by (simp_all add: MAX_KEYWORDS_def)
  have m: "([0x80, 0x01], \<lparr>dir = DIR_CLIENT, app = 80\<rparr>) \<in> set (table_of mixed_state)"
    unfolding k(4) by simp
  have hi: "(0x80 :: 16 word) \<in> set [0x80, 0x01]" "(0x80 :: 16 word) \<le> 0x80"
    "(0x80 :: 16 word) \<le> 0xFF" by simp_all
  from high_literal_never_matched[OF a] obtain st' where
    c: "construct_keyword_dict mixed_state = Inr (0, st')"
    and n: "\<forall>s q x. (s, q) \<in> set (table_of mixed_state) \<and> x \<in> set s \<and> 0x80 \<le> x \<and> x \<le> 0xFF \<longrightarrow>
          (\<forall>d. \<not> edge_matches x d)
          \<and> (\<exists>a. path_end (mem st') (kd_root st') s = Some a
                 \<and> (\<forall>bytes. search_keyword_dict (mem st') (kd_root st') bytes
                              \<noteq> Inr (Some a)))"
    and v: "\<forall>bytes p st''. identify_tcp_protocol st' bytes = Inr (p, st'') \<and> p \<noteq> 0 \<longrightarrow>
          (\<exists>s q. (s, q) \<in> set (table_of mixed_state) \<and> app q = p \<and> sig_matches s bytes
                \<and> (\<forall>x\<in>set s. \<not> (0x80 \<le> x \<and> x \<le> 0xFF)))"
    by (elim exE conjE) (rule that)
  from n m hi have 1: "\<exists>a. path_end (mem st') (kd_root st') [0x80, 0x01] = Some a
              \<and> (\<forall>bytes. search_keyword_dict (mem st') (kd_root st') bytes \<noteq> Inr (Some a))"
    by blast
  have ab: "abuild (ANode (brk (mem mixed_state)) FNil zero_pi) (table_of mixed_state)
              (Suc (brk (mem mixed_state))) = Some (mixed_tree, 9)"
    unfolding k initial_fields by (rule abuild_mixed)
  from identify_after_construct[OF a(1) ab, of "[0x16, 3, 1, 0, 0, 1]"] c
  have 2: "identify_tcp_protocol st' [0x16, 3, 1, 0, 0, 1] = Inr (443, st')"
    by (auto simp: mixed_tree_search)
  have "(443 :: 16 word) \<noteq> 0" by simp
  with v 2 have 3: "\<exists>s q. (s, q) \<in> set (table_of mixed_state) \<and> app q = 443
               \<and> sig_matches s [0x16, 3, 1, 0, 0, 1]
               \<and> (\<forall>x\<in>set s. \<not> (0x80 \<le> x \<and> x \<le> 0xFF))"
    by blast
  from a m c 1 2 3 show ?thesis by blast
qed

text \<open>
  C10.  In every program state, if \<open>identify_tcp_protocol\<close> returns a non-zero
  protocol id for a buffer \<open>b\<close>, it returns the same id (and leaves the same
  state) for \<open>b\<close> followed by any further bytes \<open>s\<close>.
\<close>

theorem identify_stable_under_append:
  assumes "identify_tcp_protocol st b = Inr (p, st')" and "p \<noteq> 0"
  shows "identify_tcp_protocol st (b @ s) = Inr (p, st')"
proof -
  from assms have ne: "b \<noteq> []"
    by (auto simp: identify_tcp_protocol_def)
  define pre where "pre = (if kd_root st = None
               then (case proto_identify_init_keyword_dict st of
                       Inl e \<Rightarrow> Inl e | Inr (_, st') \<Rightarrow> Inr st')
               else Inr st)"
  from assms ne obtain st1 where st1: "pre = Inr st1"
    unfolding identify_tcp_protocol_def pre_def by (auto split: sum.splits)
  from assms ne st1 obtain a where
    a: "search_keyword_dict (mem st1) (kd_root st1) b = Inr (Some a)"
    unfolding identify_tcp_protocol_def pre_def[symmetric]
    by (auto split: sum.splits option.splits)
  have "search_keyword_dict (mem st1) (kd_root st1) (b @ s) = Inr (Some a)"
    using a by (rule search_append)
  with assms ne st1 a show ?thesis
    unfolding identify_tcp_protocol_def pre_def[symmetric]
    by (auto split: sum.splits option.splits)
qed

theorem identify_stable_under_append_witness:
  "port_of (identify_tcp_protocol initial_state [0x16, 3, 1, 0, 0x2F, 1]) = Some 443
   \<and> port_of (identify_tcp_protocol initial_state ([0x16, 3, 1, 0, 0x2F, 1] @ [7, 7])) = Some 443"
proof -
  have e: "port_of (identify_tcp_protocol initial_state [0x16, 3, 1, 0, 0x2F, 1]) = Some 443"
    by (simp add: identify_initial tls_tree_search)
  then obtain st' where
    "identify_tcp_protocol initial_state [0x16, 3, 1, 0, 0x2F, 1] = Inr (443, st')"
    by (auto simp: port_of_def split: sum.splits)
  from identify_stable_under_append[OF this, of "[7, 7]"]
  have "port_of (identify_tcp_protocol initial_state ([0x16, 3, 1, 0, 0x2F, 1] @ [7, 7])) = Some 443"
    by (simp add: port_of_def)
  with e show ?thesis by blast
qed

end
